theory Spec2Isabelle
  imports Complex_Main "HOL-Library.Multiset" "HOL-Library.Char_ord" "HOL-Library.List_Lexorder"
    "HOL-Library.Product_Lexorder"
begin

section \<open>Spike-train buffers of bmtk/utils/reports/spike_trains/spike_train_buffer.py\<close>

text \<open>
  The embedding follows the Python module function by function. Python semantics are those
  of Python 3.7 and later: comparing \<open>None\<close> or two csv reader objects with \<open><\<close> raises
  \<open>TypeError\<close>, and a \<open>StopIteration\<close> raised inside a generator body reaches the consumer as
  \<open>RuntimeError\<close> (PEP 479). Timestamps are Python floats; they are modelled as reals, so
  NaN and rounding are outside the model. A leading underscore of a Python name is dropped,
  and a method carries the name of its class as a prefix.
\<close>

subsection \<open>Values, errors and generators\<close>

text \<open>
  The exceptions the modelled code paths can raise. \<open>ValueError_zero_size\<close> is numpy's
  \<open>ValueError\<close> for a reduction over an empty array, \<open>ValueError_closed_file\<close> is the
  \<open>ValueError\<close> of an I/O operation on a closed file object. \<open>EmptyBufferError\<close> is named
  by the specification only: no code path constructs it.
\<close>

datatype error =
    ValueError_zero_size
  | ValueError_closed_file
  | AttributeError
  | TypeError
  | IndexError
  | RuntimeError
  | NotImplementedError
  | FileNotFoundError
  | EmptyBufferError

text \<open>An event record \<open>(timestamp, population, node_id)\<close>.\<close>

type_synonym row = "real \<times> string \<times> int"

text \<open>
  A fully consumed generator: the items it yielded, in order, and how the iteration ended
  (\<open>None\<close>: exhausted normally; \<open>Some e\<close>: the exception \<open>e\<close> reached the consumer after
  those items).
\<close>

type_synonym 'a generator = "'a list \<times> error option"

text \<open>
  The statement \<open>raise StopIteration\<close> at the end of a generator body. Under PEP 479 the
  interpreter replaces it by \<open>RuntimeError\<close>.
\<close>

definition raise_StopIteration :: "error option" where
  "raise_StopIteration = Some RuntimeError"

text \<open>
  Modelled from the spec: the enumeration \<open>SortOrder\<close> of \<open>.core\<close> (not under src/), with
  the three members the module uses.
\<close>

datatype SortOrder = none | by_time | by_id

text \<open>
  \<open>population or default\<close>: \<open>None\<close> and the empty string are falsy. The constant \<open>pop_na\<close>
  of \<open>.core\<close> is not under src/; the constructors take it as a parameter.
\<close>

definition py_or :: "string option \<Rightarrow> string \<Rightarrow> string" where
  "py_or population dflt =
     (case population of None \<Rightarrow> dflt | Some s \<Rightarrow> if s = [] then dflt else s)"

text \<open>\<open>d.get(k, 0)\<close> on a dictionary of counts.\<close>

definition dict_get0 :: "('k \<rightharpoonup> nat) \<Rightarrow> 'k \<Rightarrow> nat" where
  "dict_get0 d k = (case d k of None \<Rightarrow> 0 | Some c \<Rightarrow> c)"

subsection \<open>The filter builder\<close>

definition spikes_filter1 :: "string \<Rightarrow> real \<Rightarrow> real \<times> real \<Rightarrow> string list \<Rightarrow> bool" where
  "spikes_filter1 p t time_window populations =
     (p \<in> set populations \<and> fst time_window \<le> t \<and> t \<le> snd time_window)"

definition spikes_filter2 :: "string \<Rightarrow> real \<Rightarrow> string list \<Rightarrow> bool" where
  "spikes_filter2 p t populations = (p \<in> set populations)"

definition spikes_filter3 :: "string \<Rightarrow> real \<Rightarrow> real \<times> real \<Rightarrow> bool" where
  "spikes_filter3 p t time_window = (fst time_window \<le> t \<and> t \<le> snd time_window)"

text \<open>
  The \<open>populations\<close> argument: a single label (for which \<open>np.isscalar\<close> holds) or a
  collection of labels.
\<close>

datatype pops_arg = Scalar string | Collection "string list"

definition create_filter ::
  "pops_arg option \<Rightarrow> (real \<times> real) option \<Rightarrow> string \<Rightarrow> real \<Rightarrow> bool" where
  "create_filter populations time_window =
     (case (populations, time_window) of
        (None, None) \<Rightarrow> (\<lambda>p t. True)
      | (None, Some tw) \<Rightarrow> (\<lambda>p t. spikes_filter3 p t tw)
      | (Some ps, tw_opt) \<Rightarrow>
          (let populations = (case ps of Scalar s \<Rightarrow> [s] | Collection l \<Rightarrow> l) in
           case tw_opt of
             None \<Rightarrow> (\<lambda>p t. spikes_filter2 p t populations)
           | Some tw \<Rightarrow> (\<lambda>p t. spikes_filter1 p t tw populations)))"

subsection \<open>numpy and pandas helpers\<close>

text \<open>
  \<open>np.argsort\<close>: a permutation of the indices that sorts the values. numpy leaves the order
  of equal values open; the model takes the stable one.
\<close>

definition argsort :: "'a::linorder list \<Rightarrow> nat list" where
  "argsort xs = sort_key (\<lambda>i. xs ! i) [0..<length xs]"

text \<open>\<open>np.min\<close> and \<open>np.max\<close> raise \<open>ValueError\<close> on an empty sequence.\<close>

definition np_min :: "real list \<Rightarrow> error + real" where
  "np_min xs = (case xs of [] \<Rightarrow> Inl ValueError_zero_size | x # r \<Rightarrow> Inr (fold min r x))"

definition np_max :: "real list \<Rightarrow> error + real" where
  "np_max xs = (case xs of [] \<Rightarrow> Inl ValueError_zero_size | x # r \<Rightarrow> Inr (fold max r x))"

subsection \<open>STMemoryBuffer\<close>

record STMemoryBuffer =
  mem_default_population :: string
  mem_node_ids :: "int list"
  mem_timestamps :: "real list"
  mem_populations :: "string list"
  mem_pop_counts :: "string option \<rightharpoonup> nat"
  mem_units :: string

text \<open>
  The keys of \<open>_pop_counts\<close> are Python values, so that \<open>n_spikes\<close> can look up \<open>None\<close>
  as the source does.
\<close>

definition STMemoryBuffer_init :: "string \<Rightarrow> string option \<Rightarrow> STMemoryBuffer" where
  "STMemoryBuffer_init pop_na default_pop =
     (let dp = py_or default_pop pop_na in
      \<lparr> mem_default_population = dp, mem_node_ids = [], mem_timestamps = [], mem_populations = [],
        mem_pop_counts = [Some dp \<mapsto> 0], mem_units = ''ms'' \<rparr>)"

definition STMemoryBuffer_add_spike ::
  "STMemoryBuffer \<Rightarrow> int \<Rightarrow> real \<Rightarrow> string option \<Rightarrow> STMemoryBuffer" where
  "STMemoryBuffer_add_spike self node_id timestamp population =
     (let population = py_or population (mem_default_population self) in
      self\<lparr> mem_node_ids := mem_node_ids self @ [node_id],
            mem_timestamps := mem_timestamps self @ [timestamp],
            mem_populations := mem_populations self @ [population],
            mem_pop_counts := (mem_pop_counts self)
               (Some population \<mapsto> dict_get0 (mem_pop_counts self) (Some population) + 1) \<rparr>)"

definition STMemoryBuffer_n_spikes :: "STMemoryBuffer \<Rightarrow> string option \<Rightarrow> nat" where
  "STMemoryBuffer_n_spikes self population = dict_get0 (mem_pop_counts self) population"

definition STMemoryBuffer_time_range :: "STMemoryBuffer \<Rightarrow> error + (real \<times> real)" where
  "STMemoryBuffer_time_range self =
     (case np_min (mem_timestamps self) of
        Inl e \<Rightarrow> Inl e
      | Inr lo \<Rightarrow> (case np_max (mem_timestamps self) of Inl e \<Rightarrow> Inl e | Inr hi \<Rightarrow> Inr (lo, hi)))"

definition STMemoryBuffer_to_dataframe ::
  "STMemoryBuffer \<Rightarrow> int list option \<Rightarrow> pops_arg option \<Rightarrow> (real \<times> real) option \<Rightarrow> SortOrder
     \<Rightarrow> error + row list" where
  "STMemoryBuffer_to_dataframe self nids populations time_window sort_order =
     Inl NotImplementedError"

text \<open>
  The loop of \<open>spikes\<close> over the index sequence, followed by the \<open>raise StopIteration\<close>
  that ends the body. An index outside one of the three lists raises \<open>IndexError\<close>.
\<close>

fun STMemoryBuffer_spikes_loop ::
  "STMemoryBuffer \<Rightarrow> (string \<Rightarrow> real \<Rightarrow> bool) \<Rightarrow> nat list \<Rightarrow> row generator" where
  "STMemoryBuffer_spikes_loop self flt [] = ([], raise_StopIteration)"
| "STMemoryBuffer_spikes_loop self flt (i # rest) =
     (if i < length (mem_timestamps self) \<and> i < length (mem_populations self) then
        (let t = mem_timestamps self ! i; p = mem_populations self ! i in
         if flt p t then
           (if i < length (mem_node_ids self) then
              (let (rs, e) = STMemoryBuffer_spikes_loop self flt rest
               in ((t, p, mem_node_ids self ! i) # rs, e))
            else ([], Some IndexError))
         else STMemoryBuffer_spikes_loop self flt rest)
      else ([], Some IndexError))"

text \<open>
  The second branch repeats the test of the first, as the source does, so it is never taken.
\<close>

definition STMemoryBuffer_spikes ::
  "STMemoryBuffer \<Rightarrow> int list option \<Rightarrow> pops_arg option \<Rightarrow> (real \<times> real) option \<Rightarrow> SortOrder
     \<Rightarrow> row generator" where
  "STMemoryBuffer_spikes self nids populations time_window sort_order =
     (let sort_indx =
            (if sort_order = by_time then argsort (mem_timestamps self)
             else if sort_order = by_time then argsort (mem_node_ids self)
             else [0..<length (mem_timestamps self)]);
          flt = create_filter populations time_window
      in STMemoryBuffer_spikes_loop self flt sort_indx)"

subsection \<open>Files\<close>

text \<open>
  The cache files. \<open>CacheFile d\<close> is \<open>os.path.join(d, '.bmtk.spikes.cache.csv')\<close> and
  \<open>NodeCacheFile d r\<close> is \<open>os.path.join(d, '.bmtk.spikes.cache.node{r}.csv')\<close>. A file
  holds the records of its lines \<open>"<timestamp> <population> <node_id>"\<close>, in order: writing
  a record with \<open>format\<close> and reading it back with \<open>csv.reader\<close>, \<open>float\<close> and \<open>int\<close>
  is taken to return the record (labels without the delimiter). The cache directory is
  taken to exist.
\<close>

datatype path = CacheFile string | NodeCacheFile string nat

type_synonym fs = "path \<rightharpoonup> row list"

text \<open>
  A file object opened for writing: its name, whether it has been closed, and the records
  written but not flushed yet.
\<close>

record file_handle =
  fh_name :: path
  fh_closed :: bool
  fh_pending :: "row list"

definition open_w :: "path \<Rightarrow> fs \<Rightarrow> file_handle \<times> fs" where
  "open_w fn files = (\<lparr> fh_name = fn, fh_closed = False, fh_pending = [] \<rparr>, files(fn \<mapsto> []))"

definition file_contents :: "fs \<Rightarrow> path \<Rightarrow> row list" where
  "file_contents files fn = (case files fn of None \<Rightarrow> [] | Some rows \<Rightarrow> rows)"

definition file_write :: "file_handle \<Rightarrow> row \<Rightarrow> error + file_handle" where
  "file_write h r =
     (if fh_closed h then Inl ValueError_closed_file
      else Inr (h\<lparr> fh_pending := fh_pending h @ [r] \<rparr>))"

definition file_flush :: "file_handle \<Rightarrow> fs \<Rightarrow> error + (file_handle \<times> fs)" where
  "file_flush h files =
     (if fh_closed h then Inl ValueError_closed_file
      else Inr (h\<lparr> fh_pending := [] \<rparr>,
                files(fh_name h \<mapsto> file_contents files (fh_name h) @ fh_pending h)))"

text \<open>Closing a closed file object does nothing.\<close>

definition file_close :: "file_handle \<Rightarrow> fs \<Rightarrow> file_handle \<times> fs" where
  "file_close h files =
     (if fh_closed h then (h, files)
      else (h\<lparr> fh_closed := True, fh_pending := [] \<rparr>,
            files(fh_name h \<mapsto> file_contents files (fh_name h) @ fh_pending h)))"

text \<open>
  \<open>DataFrame.sort_values\<close> between \<open>pd.read_csv\<close> and \<open>to_csv\<close>: the file is rewritten
  sorted on one column. pandas leaves the order of equal keys open; the model takes the
  stable one.
\<close>

definition sort_values :: "path \<Rightarrow> (row \<Rightarrow> 'k::linorder) \<Rightarrow> fs \<Rightarrow> error + fs" where
  "sort_values file_name col files =
     (case files file_name of
        None \<Rightarrow> Inl FileNotFoundError
      | Some rows \<Rightarrow> Inr (files(file_name \<mapsto> sort_key col rows)))"

text \<open>The columns \<open>time\<close>, \<open>population\<close> and \<open>node\<close> of a record.\<close>

definition col_time :: "row \<Rightarrow> real" where
  "col_time r = fst r"

definition col_population :: "row \<Rightarrow> string" where
  "col_population r = fst (snd r)"

definition col_node :: "row \<Rightarrow> int" where
  "col_node r = snd (snd r)"

subsection \<open>STCSVBuffer\<close>

record STCSVBuffer =
  csv_default_population :: string
  csv_cache_dir :: string
  csv_buffer_filename :: path
  csv_buffer_handle :: file_handle
  csv_pop_counts :: "string option \<rightharpoonup> nat"
  csv_nspikes :: nat
  csv_units :: string

definition STCSVBuffer_init ::
  "string \<Rightarrow> string option \<Rightarrow> string option \<Rightarrow> fs \<Rightarrow> STCSVBuffer \<times> fs" where
  "STCSVBuffer_init pop_na cache_dir default_pop files =
     (let dp = py_or default_pop pop_na;
          dir = py_or cache_dir ''.'';
          fn = CacheFile dir;
          (h, files') = open_w fn files
      in (\<lparr> csv_default_population = dp, csv_cache_dir = dir, csv_buffer_filename = fn,
            csv_buffer_handle = h, csv_pop_counts = [Some dp \<mapsto> 0], csv_nspikes = 0,
            csv_units = ''ms'' \<rparr>, files'))"

text \<open>\<open>add_spike\<close> falls back to \<open>pop_na\<close>, not to the configured default population.\<close>

definition STCSVBuffer_add_spike ::
  "string \<Rightarrow> 'a STCSVBuffer_scheme \<Rightarrow> int \<Rightarrow> real \<Rightarrow> string option
     \<Rightarrow> error + 'a STCSVBuffer_scheme" where
  "STCSVBuffer_add_spike pop_na self node_id timestamp population =
     (let population = py_or population pop_na in
      case file_write (csv_buffer_handle self) (timestamp, population, node_id) of
        Inl e \<Rightarrow> Inl e
      | Inr h \<Rightarrow>
          Inr (self\<lparr> csv_buffer_handle := h,
                     csv_nspikes := csv_nspikes self + 1,
                     csv_pop_counts := (csv_pop_counts self)
                       (Some population \<mapsto> dict_get0 (csv_pop_counts self) (Some population) + 1) \<rparr>))"

definition STCSVBuffer_n_spikes :: "'a STCSVBuffer_scheme \<Rightarrow> string option \<Rightarrow> nat" where
  "STCSVBuffer_n_spikes self population = dict_get0 (csv_pop_counts self) population"

text \<open>
  \<open>time_range\<close> reads \<open>self._timestamps\<close>, an attribute no method of the class sets.
\<close>

definition STCSVBuffer_time_range :: "'a STCSVBuffer_scheme \<Rightarrow> error + (real \<times> real)" where
  "STCSVBuffer_time_range self = Inl AttributeError"

definition STCSVBuffer_to_dataframe ::
  "'a STCSVBuffer_scheme \<Rightarrow> int list option \<Rightarrow> pops_arg option \<Rightarrow> (real \<times> real) option
     \<Rightarrow> SortOrder \<Rightarrow> error + row list" where
  "STCSVBuffer_to_dataframe self nids populations time_window sort_order =
     Inl NotImplementedError"

definition STCSVBuffer_flush ::
  "'a STCSVBuffer_scheme \<Rightarrow> fs \<Rightarrow> error + ('a STCSVBuffer_scheme \<times> fs)" where
  "STCSVBuffer_flush self files =
     (case file_flush (csv_buffer_handle self) files of
        Inl e \<Rightarrow> Inl e
      | Inr (h, files') \<Rightarrow> Inr (self\<lparr> csv_buffer_handle := h \<rparr>, files'))"

definition STCSVBuffer_close ::
  "'a STCSVBuffer_scheme \<Rightarrow> fs \<Rightarrow> 'a STCSVBuffer_scheme \<times> fs" where
  "STCSVBuffer_close self files =
     (let (h, files1) = file_close (csv_buffer_handle self) files;
          files2 = (if files1 (csv_buffer_filename self) \<noteq> None
                    then files1(csv_buffer_filename self := None) else files1)
      in (self\<lparr> csv_buffer_handle := h \<rparr>, files2))"

definition sort_buffer_file :: "path \<Rightarrow> SortOrder \<Rightarrow> fs \<Rightarrow> error + fs" where
  "sort_buffer_file file_name sort_order files =
     (if sort_order = by_time then sort_values file_name col_time files
      else if sort_order = by_id then sort_values file_name col_node files
      else Inr files)"

text \<open>The rows of one file that the filter accepts, called as \<open>filter(p=p, t=t)\<close>.\<close>

definition filtered_rows :: "(string \<Rightarrow> real \<Rightarrow> bool) \<Rightarrow> row list \<Rightarrow> row list" where
  "filtered_rows flt rows = filter (\<lambda>r. flt (col_population r) (col_time r)) rows"

text \<open>
  \<open>spikes\<close> is a generator: the flush, the sort and the scan all run when it is consumed.
  The result is the state after the iteration and the consumed generator.
\<close>

definition STCSVBuffer_spikes ::
  "'a STCSVBuffer_scheme \<Rightarrow> fs \<Rightarrow> int list option \<Rightarrow> pops_arg option \<Rightarrow> (real \<times> real) option
     \<Rightarrow> SortOrder \<Rightarrow> ('a STCSVBuffer_scheme \<times> fs) \<times> row generator" where
  "STCSVBuffer_spikes self files nids populations time_window sort_order =
     (case STCSVBuffer_flush self files of
        Inl e \<Rightarrow> ((self, files), ([], Some e))
      | Inr (self1, files1) \<Rightarrow>
          (case sort_buffer_file (csv_buffer_filename self1) sort_order files1 of
             Inl e \<Rightarrow> ((self1, files1), ([], Some e))
           | Inr files2 \<Rightarrow>
               (let flt = create_filter populations time_window in
                case files2 (csv_buffer_filename self1) of
                  None \<Rightarrow> ((self1, files2), ([], Some FileNotFoundError))
                | Some rows \<Rightarrow> ((self1, files2), (filtered_rows flt rows, raise_StopIteration)))))"

subsection \<open>heapq\<close>

text \<open>
  What \<open>next_row\<close> returns and the heap holds: \<open>None\<close>, or the tuple
  \<open>(row[sort_col], row, csv_reader)\<close>. The csv reader is modelled by the records it has
  still to deliver.
\<close>

type_synonym 'k entry = "('k \<times> row \<times> row list) option"

text \<open>
  Python's order on the lists \<open>[timestamp, population, node_id]\<close>: the first position
  where they differ decides. Strings are compared character by character.
\<close>

definition row_lt :: "row \<Rightarrow> row \<Rightarrow> bool" where
  "row_lt a b =
     (col_time a < col_time b \<or>
      (col_time a = col_time b \<and>
        (col_population a < col_population b \<or>
         (col_population a = col_population b \<and> col_node a < col_node b))))"

text \<open>
  \<open>a < b\<close> on heap items. Tuples are compared position by position; two csv reader
  objects are never equal and cannot be ordered, so two tuples with the same key and the
  same row raise \<open>TypeError\<close>, as does any comparison with \<open>None\<close>.
\<close>

fun entry_lt :: "'k::linorder entry \<Rightarrow> 'k entry \<Rightarrow> error + bool" where
  "entry_lt (Some (v1, row1, reader1)) (Some (v2, row2, reader2)) =
     (if v1 \<noteq> v2 then Inr (v1 < v2)
      else if row1 \<noteq> row2 then Inr (row_lt row1 row2)
      else Inl TypeError)"
| "entry_lt _ _ = Inl TypeError"

text \<open>
  \<open>heapq._siftdown(heap, startpos, pos)\<close>, with \<open>newitem = heap[pos]\<close> passed as an argument.
\<close>

function siftdown ::
  "'k::linorder entry list \<Rightarrow> nat \<Rightarrow> nat \<Rightarrow> 'k entry \<Rightarrow> error + 'k entry list" where
  "siftdown heap startpos pos newitem =
     (if pos > startpos then
        (case entry_lt newitem (heap ! ((pos - 1) div 2)) of
           Inl e \<Rightarrow> Inl e
         | Inr b \<Rightarrow>
             if b then siftdown (heap[pos := heap ! ((pos - 1) div 2)]) startpos ((pos - 1) div 2) newitem
             else Inr (heap[pos := newitem]))
      else Inr (heap[pos := newitem]))"
  by pat_completeness auto
termination
  by (relation "measure (\<lambda>(heap, startpos, pos, newitem). pos)") auto

declare siftdown.simps [simp del]

definition heappush :: "'k::linorder entry list \<Rightarrow> 'k entry \<Rightarrow> error + 'k entry list" where
  "heappush heap item = siftdown (heap @ [item]) 0 (length heap) item"

text \<open>
  The choice of the smaller child inside \<open>heapq._siftup\<close>:
  \<open>if rightpos < endpos and not heap[childpos] < heap[rightpos]: childpos = rightpos\<close>.
\<close>

definition smaller_child :: "'k::linorder entry list \<Rightarrow> nat \<Rightarrow> error + nat" where
  "smaller_child heap childpos =
     (if childpos + 1 < length heap then
        (case entry_lt (heap ! childpos) (heap ! (childpos + 1)) of
           Inl e \<Rightarrow> Inl e
         | Inr b \<Rightarrow> Inr (if \<not> b then childpos + 1 else childpos))
      else Inr childpos)"

text \<open>
  The loop of \<open>heapq._siftup\<close> that moves the smaller child up until a leaf is reached; it
  returns the heap and the position of the leaf.
\<close>

function siftup_loop :: "'k::linorder entry list \<Rightarrow> nat \<Rightarrow> error + ('k entry list \<times> nat)" where
  "siftup_loop heap pos =
     (if 2 * pos + 1 < length heap then
        (case smaller_child heap (2 * pos + 1) of
           Inl e \<Rightarrow> Inl e
         | Inr childpos \<Rightarrow> siftup_loop (heap[pos := heap ! childpos]) childpos)
      else Inr (heap, pos))"
  by pat_completeness auto
termination
  apply (relation "measure (\<lambda>(heap, pos). length heap - pos)")
   apply (auto simp: smaller_child_def split: if_splits sum.splits)
  done

declare siftup_loop.simps [simp del]

definition siftup :: "'k::linorder entry list \<Rightarrow> nat \<Rightarrow> error + 'k entry list" where
  "siftup heap pos =
     (let newitem = heap ! pos in
      case siftup_loop heap pos of
        Inl e \<Rightarrow> Inl e
      | Inr (heap', pos') \<Rightarrow> siftdown (heap'[pos' := newitem]) pos pos' newitem)"

text \<open>\<open>heapq.heappop\<close>: the popped item and the heap that remains.\<close>

definition heappop :: "'k::linorder entry list \<Rightarrow> error + ('k entry \<times> 'k entry list)" where
  "heappop heap =
     (if heap = [] then Inl IndexError
      else
        (let lastelt = last heap; heap' = butlast heap in
         if heap' \<noteq> [] then
           (case siftup (heap'[0 := lastelt]) 0 of
              Inl e \<Rightarrow> Inl e
            | Inr h \<Rightarrow> Inr (heap' ! 0, h))
         else Inr (lastelt, heap')))"


text \<open>
  The heap operations keep the items of the heap; the termination of the merge loop rests
  on it.
\<close>

lemma mset_update_swap:
  assumes "i < length xs" "j < length xs"
  shows "mset (xs[i := xs ! j, j := v]) = mset (xs[i := v])"
proof (cases "i = j")
  case True
  then show ?thesis by simp
next
  case False
  with assms show ?thesis
    by (simp add: mset_update nth_list_update)
qed

lemma siftdown_length:
  "siftdown heap startpos pos newitem = Inr h' \<Longrightarrow> length h' = length heap"
proof (induction heap startpos pos newitem rule: siftdown.induct)
  case (1 heap startpos pos newitem)
  show ?case
  proof (cases "pos > startpos")
    case True
    then show ?thesis
      using "1.prems" "1.IH"
      by (subst (asm) siftdown.simps) (auto split: sum.splits if_splits)
  next
    case False
    then show ?thesis
      using "1.prems" by (subst (asm) siftdown.simps) auto
  qed
qed

lemma siftdown_mset:
  "pos < length heap \<Longrightarrow> siftdown heap startpos pos newitem = Inr h' \<Longrightarrow>
   mset h' = mset (heap[pos := newitem])"
proof (induction heap startpos pos newitem rule: siftdown.induct)
  case (1 heap startpos pos newitem)
  show ?case
  proof (cases "pos > startpos")
    case True
    let ?pp = "(pos - 1) div 2"
    have pp: "?pp < length heap" using "1.prems"(1) by simp
    from True "1.prems"(2) obtain b where b: "entry_lt newitem (heap ! ?pp) = Inr b"
      by (subst (asm) siftdown.simps) (auto split: sum.splits)
    show ?thesis
    proof (cases b)
      case True
      with \<open>pos > startpos\<close> b "1.prems"(2)
      have r: "siftdown (heap[pos := heap ! ?pp]) startpos ?pp newitem = Inr h'"
        by (subst (asm) siftdown.simps) simp
      have "mset h' = mset (heap[pos := heap ! ?pp, ?pp := newitem])"
        using "1.IH"[OF \<open>pos > startpos\<close> b True _ r] pp by simp
      then show ?thesis
        using mset_update_swap[OF "1.prems"(1) pp] by simp
    next
      case False
      with \<open>pos > startpos\<close> b "1.prems"(2) show ?thesis
        by (subst (asm) siftdown.simps) auto
    qed
  next
    case False
    then show ?thesis
      using "1.prems" by (subst (asm) siftdown.simps) auto
  qed
qed

lemma heappush_mset:
  "heappush h x = Inr h' \<Longrightarrow> mset h' = add_mset x (mset h)"
  unfolding heappush_def by (drule siftdown_mset[rotated]) auto

lemma smaller_child_range:
  "smaller_child heap c = Inr c' \<Longrightarrow> c < length heap \<Longrightarrow> c' < length heap \<and> c \<le> c'"
  by (auto simp: smaller_child_def split: if_splits sum.splits)

lemma siftup_loop_mset:
  "pos < length heap \<Longrightarrow> siftup_loop heap pos = Inr (h', pos') \<Longrightarrow>
   pos' < length h' \<and> length h' = length heap \<and> mset (h'[pos' := x]) = mset (heap[pos := x])"
proof (induction heap pos rule: siftup_loop.induct)
  case (1 heap pos)
  show ?case
  proof (cases "2 * pos + 1 < length heap")
    case True
    from True "1.prems"(2) obtain c where c: "smaller_child heap (2 * pos + 1) = Inr c"
      by (subst (asm) siftup_loop.simps) (auto split: sum.splits)
    have cr: "c < length heap" using smaller_child_range[OF c True] by simp
    from True c "1.prems"(2) have r: "siftup_loop (heap[pos := heap ! c]) c = Inr (h', pos')"
      by (subst (asm) siftup_loop.simps) simp
    have "pos' < length h' \<and> length h' = length (heap[pos := heap ! c]) \<and>
          mset (h'[pos' := x]) = mset (heap[pos := heap ! c, c := x])"
      using "1.IH"[OF True c _ r] cr by simp
    then show ?thesis
      using mset_update_swap[OF "1.prems"(1) cr] by simp
  next
    case False
    then show ?thesis
      using "1.prems" by (subst (asm) siftup_loop.simps) auto
  qed
qed

lemma siftup_mset:
  assumes "pos < length heap" "siftup heap pos = Inr h'"
  shows "mset h' = mset heap"
proof -
  from assms(2) obtain h1 p1 where l: "siftup_loop heap pos = Inr (h1, p1)"
    and d: "siftdown (h1[p1 := heap ! pos]) pos p1 (heap ! pos) = Inr h'"
    by (auto simp: siftup_def Let_def split: sum.splits)
  from siftup_loop_mset[OF assms(1) l, of "heap ! pos"]
  have p: "p1 < length h1" and m: "mset (h1[p1 := heap ! pos]) = mset heap" by simp_all
  from siftdown_mset[OF _ d] p have "mset h' = mset (h1[p1 := heap ! pos])" by simp
  with m show ?thesis by simp
qed

lemma heappop_mset:
  assumes "heappop h = Inr (x, h')"
  shows "mset h = add_mset x (mset h')"
proof -
  from assms have ne: "h \<noteq> []" by (auto simp: heappop_def split: if_splits)
  then have hh: "h = butlast h @ [last h]" by simp
  show ?thesis
  proof (cases "butlast h = []")
    case True
    with assms ne have "x = last h" "h' = []" by (auto simp: heappop_def Let_def)
    with hh True show ?thesis by (metis append_Nil mset.simps(1) mset.simps(2))
  next
    case False
    with assms ne have s: "siftup ((butlast h)[0 := last h]) 0 = Inr h'" and x: "x = butlast h ! 0"
      by (auto simp: heappop_def Let_def split: sum.splits)
    from False have l: "0 < length (butlast h)" by (cases "butlast h") simp_all
    from siftup_mset[OF _ s] l have "mset h' = mset ((butlast h)[0 := last h])" by simp
    also have "\<dots> = add_mset (last h) (mset (butlast h) - {#butlast h ! 0#})"
      using l by (simp add: mset_update)
    finally have "add_mset x (mset h') = add_mset (last h) (mset (butlast h))"
      using x l by simp
    moreover have "mset h = add_mset (last h) (mset (butlast h))"
      by (subst hh) simp
    ultimately show ?thesis by simp
  qed
qed


subsection \<open>STMPIBuffer\<close>

definition next_row :: "(row \<Rightarrow> 'k) \<Rightarrow> row list \<Rightarrow> 'k entry" where
  "next_row sort_col csv_reader =
     (case csv_reader of [] \<Rightarrow> None | rn # rest \<Rightarrow> Some (sort_col rn, rn, rest))"

text \<open>\<open>if c: yield x\<close>, followed by the rest of the iteration.\<close>

definition yield_if :: "bool \<Rightarrow> 'a \<Rightarrow> 'a generator \<Rightarrow> 'a generator" where
  "yield_if c x g = (if c then (x # fst g, snd g) else g)"

text \<open>
  The number of records a heap item still stands for (itself and what its reader holds):
  the measure of the merge loop.
\<close>

definition entry_weight :: "'k entry \<Rightarrow> nat" where
  "entry_weight e = (case e of None \<Rightarrow> 1 | Some (v, row, csv_reader) \<Rightarrow> Suc (length csv_reader))"

definition heap_weight :: "'k entry list \<Rightarrow> nat" where
  "heap_weight h = sum_mset (image_mset entry_weight (mset h))"

lemma heap_weight_pop:
  "heappop h = Inr (x, h1) \<Longrightarrow> heap_weight h = entry_weight x + heap_weight h1"
  by (drule heappop_mset) (simp add: heap_weight_def)

lemma heap_weight_push:
  "heappush h x = Inr h1 \<Longrightarrow> heap_weight h1 = entry_weight x + heap_weight h"
  by (drule heappush_mset) (simp add: heap_weight_def)

text \<open>
  The \<open>while h\<close> loop of \<open>_sorted_itr\<close>. Unpacking a popped \<open>None\<close> raises \<open>TypeError\<close>.
  The filter is called positionally as \<open>filter(row[1], row[2])\<close>: its second argument is
  the node id.
\<close>

function sorted_loop ::
  "(string \<Rightarrow> real \<Rightarrow> bool) \<Rightarrow> (row \<Rightarrow> 'k::linorder) \<Rightarrow> 'k entry list \<Rightarrow> row generator" where
  "sorted_loop flt sort_col h =
     (if h = [] then ([], None)
      else
        (case heappop h of
           Inl e \<Rightarrow> ([], Some e)
         | Inr (item, h1) \<Rightarrow>
             (case item of
                None \<Rightarrow> ([], Some TypeError)
              | Some (v, row, csv_reader) \<Rightarrow>
                  (case (case next_row sort_col csv_reader of
                           None \<Rightarrow> Inr h1
                         | Some n \<Rightarrow> heappush h1 (Some n)) of
                     Inl e \<Rightarrow> ([], Some e)
                   | Inr h2 \<Rightarrow>
                       yield_if (flt (col_population row) (real_of_int (col_node row))) row
                         (sorted_loop flt sort_col h2)))))"
  by pat_completeness auto
termination
proof (relation "measure (\<lambda>(flt, sort_col, h). heap_weight h)", goal_cases)
  case 1
  show ?case by simp
next
  case (2 flt sort_col h x2 item h1 x2a v x2b row csv_reader h2)
  from 2 have p: "heappop h = Inr (Some (v, row, csv_reader), h1)" by simp
  have w: "heap_weight h = Suc (length csv_reader) + heap_weight h1"
    using heap_weight_pop[OF p] by (simp add: entry_weight_def)
  have "heap_weight h2 \<le> length csv_reader + heap_weight h1"
  proof (cases csv_reader)
    case Nil
    with 2 show ?thesis by (simp add: next_row_def)
  next
    case (Cons rn rest)
    with 2 have "heappush h1 (Some (sort_col rn, rn, rest)) = Inr h2"
      by (simp add: next_row_def)
    from heap_weight_push[OF this] Cons show ?thesis by (simp add: entry_weight_def)
  qed
  with w show ?case by simp
qed

declare sorted_loop.simps [simp del]

text \<open>\<open>for r in readers: heapq.heappush(h, r)\<close>.\<close>

fun heappush_all :: "'k::linorder entry list \<Rightarrow> 'k entry list \<Rightarrow> error + 'k entry list" where
  "heappush_all h [] = Inr h"
| "heappush_all h (r # readers) =
     (case heappush h r of Inl e \<Rightarrow> Inl e | Inr h' \<Rightarrow> heappush_all h' readers)"

text \<open>Opening every cached file for reading; a missing file raises.\<close>

fun open_all :: "fs \<Rightarrow> path list \<Rightarrow> error + row list list" where
  "open_all files [] = Inr []"
| "open_all files (fn # fns) =
     (case files fn of
        None \<Rightarrow> Inl FileNotFoundError
      | Some rows \<Rightarrow> (case open_all files fns of Inl e \<Rightarrow> Inl e | Inr rest \<Rightarrow> Inr (rows # rest)))"

definition sorted_itr ::
  "fs \<Rightarrow> path list \<Rightarrow> (string \<Rightarrow> real \<Rightarrow> bool) \<Rightarrow> (row \<Rightarrow> 'k::linorder) \<Rightarrow> row generator" where
  "sorted_itr files all_cached_files flt sort_col =
     (case open_all files all_cached_files of
        Inl e \<Rightarrow> ([], Some e)
      | Inr csv_readers \<Rightarrow>
          (case heappush_all [] (map (next_row sort_col) csv_readers) of
             Inl e \<Rightarrow> ([], Some e)
           | Inr h \<Rightarrow> sorted_loop flt sort_col h))"

text \<open>
  \<open>_unsorted_itr\<close>: the files in rank order, filtered, then \<open>raise StopIteration\<close>.
\<close>

fun unsorted_itr :: "fs \<Rightarrow> path list \<Rightarrow> (string \<Rightarrow> real \<Rightarrow> bool) \<Rightarrow> row generator" where
  "unsorted_itr files [] flt = ([], raise_StopIteration)"
| "unsorted_itr files (fn # fns) flt =
     (case files fn of
        None \<Rightarrow> ([], Some FileNotFoundError)
      | Some rows \<Rightarrow>
          (let g = unsorted_itr files fns flt in (filtered_rows flt rows @ fst g, snd g)))"

record STMPIBuffer = STCSVBuffer +
  mpi_rank :: nat
  mpi_size :: nat

text \<open>
  \<open>_all_cached_files\<close> ranges over the module-level \<open>MPI_size\<close>, a parameter here, not over
  the \<open>mpi_size\<close> of the instance.
\<close>

definition all_cached_files :: "nat \<Rightarrow> 'a STCSVBuffer_scheme \<Rightarrow> path list" where
  "all_cached_files MPI_size self = map (NodeCacheFile (csv_cache_dir self)) [0..<MPI_size]"

definition STMPIBuffer_init ::
  "string \<Rightarrow> string option \<Rightarrow> string option \<Rightarrow> nat \<Rightarrow> nat \<Rightarrow> fs \<Rightarrow> STMPIBuffer \<times> fs" where
  "STMPIBuffer_init pop_na cache_dir default_pop rank nranks files =
     (let dp = py_or default_pop pop_na;
          dir = py_or cache_dir ''.'';
          fn = NodeCacheFile dir rank;
          (h, files') = open_w fn files
      in (\<lparr> csv_default_population = dp, csv_cache_dir = dir, csv_buffer_filename = fn,
            csv_buffer_handle = h, csv_pop_counts = [Some dp \<mapsto> 0], csv_nspikes = 0,
            csv_units = ''ms'', mpi_rank = rank, mpi_size = nranks \<rparr>, files'))"

fun gather_loop ::
  "fs \<Rightarrow> path list \<Rightarrow> (string option \<rightharpoonup> nat) \<Rightarrow> error + (string option \<rightharpoonup> nat)" where
  "gather_loop files [] counts = Inr counts"
| "gather_loop files (fn # fns) counts =
     (case files fn of
        None \<Rightarrow> Inl FileNotFoundError
      | Some rows \<Rightarrow>
          gather_loop files fns
            (fold (\<lambda>row c. c(Some (col_population row) \<mapsto> dict_get0 c (Some (col_population row)) + 1))
               rows counts))"

definition STMPIBuffer_n_spikes ::
  "nat \<Rightarrow> STMPIBuffer \<Rightarrow> fs \<Rightarrow> string option \<Rightarrow> error + (STMPIBuffer \<times> nat)" where
  "STMPIBuffer_n_spikes MPI_size self files population =
     (case gather_loop files (all_cached_files MPI_size self) Map.empty of
        Inl e \<Rightarrow> Inl e
      | Inr counts \<Rightarrow> Inr (self\<lparr> csv_pop_counts := counts \<rparr>, dict_get0 counts population))"

fun sort_all :: "path list \<Rightarrow> SortOrder \<Rightarrow> fs \<Rightarrow> error + fs" where
  "sort_all [] sort_order files = Inr files"
| "sort_all (fn # fns) sort_order files =
     (case sort_buffer_file fn sort_order files of
        Inl e \<Rightarrow> Inl e
      | Inr files' \<Rightarrow> sort_all fns sort_order files')"

text \<open>
  \<open>STMPIBuffer.spikes\<close> is not a generator itself: the flush and the sorting of the files
  run at the call and the merge when the result is consumed. An exception of the call is
  reported like one of the iteration, with no item yielded. \<open>sort_col\<close> is 0 (the
  timestamp) for \<open>by_time\<close> and 1 (the population) otherwise.
\<close>

definition STMPIBuffer_spikes ::
  "nat \<Rightarrow> STMPIBuffer \<Rightarrow> fs \<Rightarrow> int list option \<Rightarrow> pops_arg option \<Rightarrow> (real \<times> real) option
     \<Rightarrow> SortOrder \<Rightarrow> (STMPIBuffer \<times> fs) \<times> row generator" where
  "STMPIBuffer_spikes MPI_size self files nids populations time_window sort_order =
     (case STCSVBuffer_flush self files of
        Inl e \<Rightarrow> ((self, files), ([], Some e))
      | Inr (self1, files1) \<Rightarrow>
          (let flt = create_filter populations time_window in
           if sort_order = by_time \<or> sort_order = by_id then
             (case sort_all (all_cached_files MPI_size self1) sort_order files1 of
                Inl e \<Rightarrow> ((self1, files1), ([], Some e))
              | Inr files2 \<Rightarrow>
                  ((self1, files2),
                   (if sort_order = by_time
                    then sorted_itr files2 (all_cached_files MPI_size self1) flt col_time
                    else sorted_itr files2 (all_cached_files MPI_size self1) flt col_population)))
           else ((self1, files1), unsorted_itr files1 (all_cached_files MPI_size self1) flt)))"

subsection \<open>A run of two workers\<close>

text \<open>
  The callers of the distributed buffer: every worker creates its buffer for its rank,
  records its spikes and flushes; the buffer of rank 0 then reads.
\<close>

fun add_all :: "string \<Rightarrow> 'a STCSVBuffer_scheme \<Rightarrow> row list \<Rightarrow> error + 'a STCSVBuffer_scheme" where
  "add_all pop_na self [] = Inr self"
| "add_all pop_na self (r # rs) =
     (case STCSVBuffer_add_spike pop_na self (col_node r) (col_time r) (Some (col_population r)) of
        Inl e \<Rightarrow> Inl e
      | Inr self' \<Rightarrow> add_all pop_na self' rs)"

definition worker :: "nat \<Rightarrow> nat \<Rightarrow> row list \<Rightarrow> fs \<Rightarrow> error + (STMPIBuffer \<times> fs)" where
  "worker rank nranks rows files =
     (let (self, files1) = STMPIBuffer_init ''NONE'' None None rank nranks files in
      case add_all ''NONE'' self rows of
        Inl e \<Rightarrow> Inl e
      | Inr self1 \<Rightarrow> STCSVBuffer_flush self1 files1)"

definition two_workers :: "row list \<Rightarrow> row list \<Rightarrow> error + (STMPIBuffer \<times> fs)" where
  "two_workers rows0 rows1 =
     (case worker 0 2 rows0 Map.empty of
        Inl e \<Rightarrow> Inl e
      | Inr (self0, files0) \<Rightarrow>
          (case worker 1 2 rows1 files0 of
             Inl e \<Rightarrow> Inl e
           | Inr (self1, files1) \<Rightarrow> Inr (self0, files1)))"

definition merged_spikes ::
  "row list \<Rightarrow> row list \<Rightarrow> (real \<times> real) option \<Rightarrow> SortOrder \<Rightarrow> row generator" where
  "merged_spikes rows0 rows1 time_window sort_order =
     (case two_workers rows0 rows1 of
        Inl e \<Rightarrow> ([], Some e)
      | Inr (self, files) \<Rightarrow> snd (STMPIBuffer_spikes 2 self files None None time_window sort_order))"

text \<open>Two file systems with the same files, the same of them empty.\<close>

definition same_shape :: "fs \<Rightarrow> fs \<Rightarrow> bool" where
  "same_shape files files' =
     (\<forall>fn. (files' fn = None \<longleftrightarrow> files fn = None) \<and>
           (files' fn = Some [] \<longleftrightarrow> files fn = Some []))"

subsection \<open>Invariants of the heap and of the merge\<close>

text \<open>
  The notions the correctness of the merge is stated with. The key of a heap item is the
  pair (sort key, row) that decides every comparison of two items that does not raise; a
  list of items is \<open>good\<close> when it holds no \<open>None\<close> and no two items with the same key.
  \<open>heap_inv\<close> is the heap property of the list, \<open>hole_ok\<close> the heap property around a
  position whose content is about to be replaced. \<open>rows_mset\<close> collects the records a heap
  still stands for.
\<close>

definition ekey :: "'k entry \<Rightarrow> 'k \<times> row" where
  "ekey e = (case the e of (v, row, csv_reader) \<Rightarrow> (v, row))"

definition good :: "'k entry list \<Rightarrow> bool" where
  "good xs = (None \<notin> set xs \<and> distinct (map ekey xs))"

definition heap_inv :: "'k::linorder entry list \<Rightarrow> bool" where
  "heap_inv h = (\<forall>i. 0 < i \<and> i < length h \<longrightarrow> ekey (h ! ((i - 1) div 2)) \<le> ekey (h ! i))"

definition hole_ok :: "'k::linorder entry list \<Rightarrow> nat \<Rightarrow> bool" where
  "hole_ok h pos =
     (\<forall>i. 0 < i \<and> i < length h \<and> i \<noteq> pos \<longrightarrow>
        (if (i - 1) div 2 = pos then (0 < pos \<longrightarrow> ekey (h ! ((pos - 1) div 2)) \<le> ekey (h ! i))
         else ekey (h ! ((i - 1) div 2)) \<le> ekey (h ! i)))"

definition entry_rows :: "'k entry \<Rightarrow> row list" where
  "entry_rows e = (case e of None \<Rightarrow> [] | Some (v, row, csv_reader) \<Rightarrow> row # csv_reader)"

definition rows_mset :: "'k entry list \<Rightarrow> row multiset" where
  "rows_mset h = sum_mset (image_mset (\<lambda>e. mset (entry_rows e)) (mset h))"

definition unique :: "'a multiset \<Rightarrow> bool" where
  "unique M = (\<forall>x. count M x \<le> 1)"

definition wf_entry :: "(row \<Rightarrow> 'k::linorder) \<Rightarrow> 'k entry \<Rightarrow> bool" where
  "wf_entry sc e =
     (case e of None \<Rightarrow> False | Some (v, row, csv_reader) \<Rightarrow> v = sc row \<and> sorted (map sc (row # csv_reader)))"

definition merge_inv :: "(row \<Rightarrow> 'k::linorder) \<Rightarrow> 'k entry list \<Rightarrow> bool" where
  "merge_inv sc h = (heap_inv h \<and> (\<forall>e\<in>set h. wf_entry sc e) \<and> unique (rows_mset h))"

section \<open>Properties\<close>

text \<open>
  C7. The predicate built by \<open>_create_filter\<close> accepts a pair (population, timestamp)
  exactly when the population constraint is absent or the population is one of the
  requested labels, and the time window is absent or contains the timestamp, both ends
  included.
\<close>

theorem create_filter_correct:
  "create_filter populations time_window p t =
     ((case populations of
         None \<Rightarrow> True
       | Some (Scalar s) \<Rightarrow> p = s
       | Some (Collection l) \<Rightarrow> p \<in> set l) \<and>
      (case time_window of None \<Rightarrow> True | Some (lo, hi) \<Rightarrow> lo \<le> t \<and> t \<le> hi))"
  by (auto simp: create_filter_def spikes_filter1_def spikes_filter2_def spikes_filter3_def
      split: option.splits pops_arg.splits)

text \<open>
  C4 (as stated, it fails). \<open>time_range\<close> on a memory buffer that received no spike does
  not fail with \<open>EmptyBufferError\<close>.
\<close>

theorem time_range_empty_not_EmptyBufferError:
  "STMemoryBuffer_time_range (STMemoryBuffer_init ''NONE'' None) \<noteq> Inl EmptyBufferError"
  by (simp add: STMemoryBuffer_time_range_def STMemoryBuffer_init_def np_min_def Let_def)

text \<open>
  C4 (amended). \<open>time_range\<close> on a memory buffer that received no spike fails with the
  \<open>ValueError\<close> numpy raises for the minimum of an empty sequence; no numeric result is
  returned.
\<close>

theorem time_range_empty_ValueError:
  "STMemoryBuffer_time_range (STMemoryBuffer_init pop_na default_pop) = Inl ValueError_zero_size"
  by (simp add: STMemoryBuffer_time_range_def STMemoryBuffer_init_def np_min_def Let_def)

text \<open>
  C9 (as stated, it fails). \<open>to_dataframe\<close> on a memory buffer holding one spike returns
  no table: it raises \<open>NotImplementedError\<close>.
\<close>

theorem to_dataframe_one_spike_not_implemented:
  "STMemoryBuffer_to_dataframe
     (STMemoryBuffer_add_spike (STMemoryBuffer_init ''NONE'' None) 3 1.5 (Some ''A''))
     None None None none = Inl NotImplementedError"
  by (simp add: STMemoryBuffer_to_dataframe_def)

text \<open>
  C9 (amended). \<open>to_dataframe\<close> is a placeholder in the memory and in the file backend:
  whatever the buffer and the filters, the call raises \<open>NotImplementedError\<close>.
\<close>

theorem to_dataframe_not_implemented:
  "STMemoryBuffer_to_dataframe self nids populations time_window sort_order
     = Inl NotImplementedError
   \<and> STCSVBuffer_to_dataframe self' nids' populations' time_window' sort_order'
     = Inl NotImplementedError"
  by (simp add: STMemoryBuffer_to_dataframe_def STCSVBuffer_to_dataframe_def)

text \<open>
  C5 (the code departs from it). After one \<open>add_spike\<close> with the population omitted,
  \<open>n_spikes\<close> with the population omitted returns 0, not 1: the spike is counted under the
  default label, and \<open>n_spikes\<close> looks up \<open>None\<close>.
\<close>

theorem n_spikes_omitted_population:
  "STMemoryBuffer_n_spikes
     (STMemoryBuffer_add_spike (STMemoryBuffer_init ''NONE'' None) 1 0.5 None) None = 0
   \<and> STMemoryBuffer_n_spikes
     (STMemoryBuffer_add_spike (STMemoryBuffer_init ''NONE'' None) 1 0.5 None) (Some ''NONE'') = 1"
  by (simp add: STMemoryBuffer_n_spikes_def STMemoryBuffer_add_spike_def STMemoryBuffer_init_def
      py_or_def dict_get0_def Let_def)

text \<open>
  C2 (the code departs from it). A memory buffer that received node 2 and then node 1
  yields them in that order under \<open>sort_order = by_id\<close>: the node ids decrease.
\<close>

theorem memory_spikes_by_id_unsorted:
  "STMemoryBuffer_spikes
     (STMemoryBuffer_add_spike
        (STMemoryBuffer_add_spike (STMemoryBuffer_init ''NONE'' None) 2 0 None) 1 1 None)
     None None None by_id
   = ([(0, ''NONE'', 2), (1, ''NONE'', 1)], Some RuntimeError)"
  by (simp add: STMemoryBuffer_spikes_def STMemoryBuffer_add_spike_def STMemoryBuffer_init_def
      py_or_def dict_get0_def Let_def create_filter_def raise_StopIteration_def upt_rec)

text \<open>
  C3 (the code departs from it). Iterating \<open>spikes\<close> of a memory buffer holding one spike
  yields the spike and then ends with \<open>RuntimeError\<close>, not normally.
\<close>

theorem memory_spikes_ends_with_error:
  "STMemoryBuffer_spikes
     (STMemoryBuffer_add_spike (STMemoryBuffer_init ''NONE'' None) 1 0.5 None)
     None None None none
   = ([(0.5, ''NONE'', 1)], Some RuntimeError)"
  by (simp add: STMemoryBuffer_spikes_def STMemoryBuffer_add_spike_def STMemoryBuffer_init_def
      py_or_def dict_get0_def Let_def create_filter_def raise_StopIteration_def upt_rec)

text \<open>
  C8. For a file buffer in any state, a second \<open>close\<close> changes nothing and cannot fail,
  \<open>close\<close> leaves no backing file, and iterating \<open>spikes\<close> after \<open>close\<close> yields nothing
  and fails with the \<open>ValueError\<close> of an operation on a closed file.
\<close>

theorem close_twice_then_read:
  "STCSVBuffer_close (fst (STCSVBuffer_close self files)) (snd (STCSVBuffer_close self files))
     = STCSVBuffer_close self files
   \<and> snd (STCSVBuffer_close self files) (csv_buffer_filename self) = None
   \<and> snd (STCSVBuffer_spikes (fst (STCSVBuffer_close self files))
            (snd (STCSVBuffer_close self files)) nids populations time_window sort_order)
       = ([], Some ValueError_closed_file)"
  by (auto simp: STCSVBuffer_close_def file_close_def STCSVBuffer_spikes_def STCSVBuffer_flush_def
      file_flush_def Let_def split: prod.splits if_splits)

text \<open>Evaluation of a run of two workers.\<close>

lemmas eval_simps =
  merged_spikes_def two_workers_def worker_def STMPIBuffer_init_def STCSVBuffer_add_spike_def
  STCSVBuffer_flush_def file_flush_def file_write_def open_w_def file_contents_def py_or_def
  dict_get0_def Let_def STMPIBuffer_spikes_def all_cached_files_def sort_buffer_file_def
  sort_values_def sorted_itr_def next_row_def heappush_def heappop_def siftup_def
  siftdown.simps siftup_loop.simps sorted_loop.simps smaller_child_def yield_if_def
  create_filter_def spikes_filter3_def col_time_def col_population_def col_node_def
  row_lt_def upt_rec raise_StopIteration_def filtered_rows_def

text \<open>Scenario B of the specification: the merge of two ranks.\<close>

lemma scenario_B:
  "merged_spikes [(1, ''A'', 0), (3, ''A'', 0)] [(2, ''A'', 1)] None by_time
     = ([(1, ''A'', 0), (2, ''A'', 1), (3, ''A'', 0)], None)"
  by (simp add: eval_simps)

text \<open>
  C1 (the code departs from it). Two ranks that each hold the record \<open>(1.0, "A", 0)\<close>:
  the merge yields nothing and fails with \<open>TypeError\<close>, where the sorted concatenation
  has two records.
\<close>

theorem merge_equal_records_TypeError:
  "merged_spikes [(1, ''A'', 0)] [(1, ''A'', 0)] None by_time = ([], Some TypeError)"
  by (simp add: eval_simps)

text \<open>
  C6 (the code departs from it). With the time window \<open>(0, 10)\<close>, the sorted merge drops
  the record of time 5 (node 100) and emits the record of time 50 (node 3): the window is
  applied to the node id.
\<close>

theorem merge_time_window_on_node_id:
  "merged_spikes [(5, ''A'', 100)] [(50, ''A'', 3)] (Some (0, 10)) by_time
     = ([(50, ''A'', 3)], None)"
  by (simp add: eval_simps)

text \<open>What a failing heap operation raises, and the heap operations on \<open>None\<close>.\<close>

lemma entry_lt_error: "entry_lt a b = Inl e \<Longrightarrow> e = TypeError"
  by (cases "(a, b)" rule: entry_lt.cases) (auto split: if_splits)

lemma entry_lt_None [simp]: "entry_lt None b = Inl TypeError" "entry_lt a None = Inl TypeError"
  by (cases b; simp) (cases a; simp)

lemma siftdown_error: "siftdown heap startpos pos newitem = Inl e \<Longrightarrow> e = TypeError"
proof (induction heap startpos pos newitem rule: siftdown.induct)
  case (1 heap startpos pos newitem)
  let ?pp = "(pos - 1) div 2"
  from "1.prems" have gt: "pos > startpos"
    by (subst (asm) siftdown.simps) (auto split: if_splits)
  show ?case
  proof (cases "entry_lt newitem (heap ! ?pp)")
    case (Inl e')
    with gt "1.prems" have "e = e'" by (subst (asm) siftdown.simps) simp
    with Inl show ?thesis by (simp add: entry_lt_error)
  next
    case (Inr b)
    from gt Inr "1.prems" have b: "b"
      by (subst (asm) siftdown.simps) (simp split: if_splits)
    from gt Inr b "1.prems" have r: "siftdown (heap[pos := heap ! ?pp]) startpos ?pp newitem = Inl e"
      by (subst (asm) siftdown.simps) simp
    from "1.IH"[OF gt Inr b r] show ?thesis .
  qed
qed

lemma heappush_error: "heappush h x = Inl e \<Longrightarrow> e = TypeError"
  unfolding heappush_def by (rule siftdown_error)

lemma heappush_Nil [simp]: "heappush [] x = Inr [x]"
  by (simp add: heappush_def siftdown.simps)

lemma heappush_None: "h \<noteq> [] \<Longrightarrow> heappush h None = Inl TypeError"
  by (simp add: heappush_def siftdown.simps)

lemma heappush_on_None: "heappush [None] x = Inl TypeError"
  by (simp add: heappush_def siftdown.simps)

lemma heappush_set: "heappush h x = Inr h' \<Longrightarrow> set h' = insert x (set h)"
  by (drule heappush_mset) (metis set_mset_add_mset_insert set_mset_mset)

lemma heappush_all_None_later:
  "None \<in> set readers \<Longrightarrow> h \<noteq> [] \<Longrightarrow> None \<notin> set h \<Longrightarrow> heappush_all h readers = Inl TypeError"
proof (induction readers arbitrary: h)
  case Nil
  then show ?case by simp
next
  case (Cons r readers)
  show ?case
  proof (cases r)
    case None
    from heappush_None[OF Cons.prems(2)] None show ?thesis by simp
  next
    case (Some t)
    show ?thesis
    proof (cases "heappush h r")
      case (Inl e)
      from heappush_error[OF Inl] Inl show ?thesis by simp
    next
      case (Inr h')
      have s: "set h' = insert r (set h)" by (rule heappush_set[OF Inr])
      have ne: "h' \<noteq> []" using s by (cases h') simp_all
      have nn: "None \<notin> set h'" unfolding s using Some Cons.prems(3) by simp
      have later: "None \<in> set readers" using Some Cons.prems(1) by simp
      have "heappush_all h' readers = Inl TypeError" by (rule Cons.IH[OF later ne nn])
      with Inr show ?thesis by simp
    qed
  qed
qed

lemma heappush_all_on_None: "readers \<noteq> [] \<Longrightarrow> heappush_all [None] readers = Inl TypeError"
  by (cases readers) (simp_all add: heappush_on_None)

lemma sorted_loop_None: "sorted_loop flt sort_col [None] = ([], Some TypeError)"
  by (simp add: sorted_loop.simps heappop_def)

lemma merge_with_None:
  assumes "None \<in> set readers"
  shows "(case heappush_all [] readers of Inl e \<Rightarrow> ([], Some e) | Inr h \<Rightarrow> sorted_loop flt sort_col h)
           = ([], Some TypeError)"
proof (cases readers)
  case Nil
  with assms show ?thesis by simp
next
  case (Cons r rest)
  show ?thesis
  proof (cases r)
    case None
    then show ?thesis using Cons
      by (cases "rest = []") (simp_all add: sorted_loop_None heappush_all_on_None)
  next
    case (Some t)
    with assms Cons have "None \<in> set rest" by auto
    from heappush_all_None_later[OF this, of "[r]"] Some Cons show ?thesis by simp
  qed
qed

lemma sorted_itr_empty_source:
  assumes "open_all files fns = Inr csv_readers" "[] \<in> set csv_readers"
  shows "sorted_itr files fns flt sort_col = ([], Some TypeError)"
proof -
  from assms(2) have "None \<in> set (map (next_row sort_col) csv_readers)"
    by (force simp: next_row_def)
  from merge_with_None[OF this] assms(1) show ?thesis by (simp add: sorted_itr_def)
qed

lemma sort_key_Nil_iff: "sort_key f xs = [] \<longleftrightarrow> xs = []"
  by (metis length_0_conv length_sort)

lemma sort_buffer_file_shape:
  "files fn \<noteq> None \<Longrightarrow>
   \<exists>files'. sort_buffer_file fn sort_order files = Inr files' \<and> same_shape files files'"
  by (auto simp: sort_buffer_file_def sort_values_def same_shape_def sort_key_Nil_iff)

lemma sort_all_shape:
  "\<forall>fn\<in>set fns. files fn \<noteq> None \<Longrightarrow>
   \<exists>files'. sort_all fns sort_order files = Inr files' \<and> same_shape files files'"
proof (induction fns arbitrary: files)
  case Nil
  then show ?case by (simp add: same_shape_def)
next
  case (Cons fn fns)
  then obtain f1 where f1: "sort_buffer_file fn sort_order files = Inr f1" "same_shape files f1"
    using sort_buffer_file_shape[of files fn sort_order] by auto
  with Cons.prems have "\<forall>fn\<in>set fns. f1 fn \<noteq> None" by (simp add: same_shape_def)
  from Cons.IH[OF this] obtain f2 where "sort_all fns sort_order f1 = Inr f2" "same_shape f1 f2"
    by auto
  with f1 show ?case by (auto simp: same_shape_def)
qed

lemma open_all_present:
  "\<forall>fn\<in>set fns. files fn \<noteq> None \<Longrightarrow>
   open_all files fns = Inr (map (\<lambda>fn. the (files fn)) fns)"
  by (induction fns) auto

text \<open>
  C10. When the flush succeeds, every per-rank file exists and one of them holds no
  record, the sorted retrieval of the distributed buffer (\<open>by_time\<close> or \<open>by_id\<close>) yields
  no record and fails with \<open>TypeError\<close>: the \<open>None\<close> head of the empty source is pushed
  into the heap and then compared or unpacked.
\<close>

theorem sorted_retrieval_empty_rank_fails:
  assumes flush: "STCSVBuffer_flush self files = Inr (self1, files1)"
    and present: "\<forall>r<MPI_size. files1 (NodeCacheFile (csv_cache_dir self) r) \<noteq> None"
    and empty: "r < MPI_size" "files1 (NodeCacheFile (csv_cache_dir self) r) = Some []"
    and sorted: "sort_order = by_time \<or> sort_order = by_id"
  shows "snd (STMPIBuffer_spikes MPI_size self files nids populations time_window sort_order)
           = ([], Some TypeError)"
proof -
  let ?fns = "all_cached_files MPI_size self1"
  from flush have dir: "csv_cache_dir self1 = csv_cache_dir self"
    by (auto simp: STCSVBuffer_flush_def split: sum.splits)
  from present dir have p1: "\<forall>fn\<in>set ?fns. files1 fn \<noteq> None"
    by (auto simp: all_cached_files_def)
  from sort_all_shape[OF p1] obtain files2 where
    s: "sort_all ?fns sort_order files1 = Inr files2" and sh: "same_shape files1 files2" by blast
  from p1 sh have p2: "\<forall>fn\<in>set ?fns. files2 fn \<noteq> None" by (simp add: same_shape_def)
  from empty dir have m: "NodeCacheFile (csv_cache_dir self) r \<in> set ?fns"
    by (auto simp: all_cached_files_def)
  from empty(2) sh have "files2 (NodeCacheFile (csv_cache_dir self) r) = Some []"
    by (simp add: same_shape_def)
  with m have e: "[] \<in> set (map (\<lambda>fn. the (files2 fn)) ?fns)" by force
  have t: "sorted_itr files2 ?fns flt col_time = ([], Some TypeError)" for flt
    by (rule sorted_itr_empty_source[OF open_all_present[OF p2] e])
  have p: "sorted_itr files2 ?fns flt col_population = ([], Some TypeError)" for flt
    by (rule sorted_itr_empty_source[OF open_all_present[OF p2] e])
  from flush s sorted show ?thesis
    by (auto simp: STMPIBuffer_spikes_def Let_def t p)
qed

text \<open>
  The theorem at a run of two workers where rank 1 recorded nothing: rank 0's record is
  not delivered.
\<close>

theorem sorted_retrieval_empty_rank_fails_witness:
  "merged_spikes [(1, ''B'', 1)] [] None by_time = ([], Some TypeError)"
proof -
  obtain self files where tw: "two_workers [(1, ''B'', 1)] [] = Inr (self, files)"
    and dir: "csv_cache_dir self = ''.''"
    and f0: "files (NodeCacheFile ''.'' 0) = Some [(1, ''B'', 1)]"
    and f1: "files (NodeCacheFile ''.'' 1) = Some []"
    and op: "\<not> fh_closed (csv_buffer_handle self)"
    and pe: "fh_pending (csv_buffer_handle self) = []"
    and nm: "fh_name (csv_buffer_handle self) = NodeCacheFile ''.'' 0"
    by (simp add: two_workers_def worker_def STMPIBuffer_init_def STCSVBuffer_add_spike_def
        STCSVBuffer_flush_def file_flush_def file_write_def open_w_def file_contents_def
        py_or_def dict_get0_def Let_def col_time_def col_population_def col_node_def)
  define files1 where "files1 = files(NodeCacheFile ''.'' 0 \<mapsto> [(1, ''B'', 1)])"
  have fl: "STCSVBuffer_flush self files
      = Inr (self\<lparr>csv_buffer_handle := (csv_buffer_handle self)\<lparr>fh_pending := []\<rparr>\<rparr>, files1)"
    using op pe nm f0
    by (simp add: STCSVBuffer_flush_def file_flush_def file_contents_def files1_def)
  have pr: "\<forall>r<2. files1 (NodeCacheFile (csv_cache_dir self) r) \<noteq> None"
    using f1 by (auto simp: files1_def dir less_2_cases_iff)
  have em: "files1 (NodeCacheFile (csv_cache_dir self) 1) = Some []"
    using f1 by (simp add: files1_def dir)
  have "snd (STMPIBuffer_spikes 2 self files None None None by_time) = ([], Some TypeError)"
    by (rule sorted_retrieval_empty_rank_fails[OF fl pr _ em]) simp_all
  with tw show ?thesis by (simp add: merged_spikes_def)
qed

subsection \<open>Further facts on the memory and file backends\<close>

text \<open>
  After any sequence of \<open>add_spike\<close> calls on a fresh memory buffer, \<open>n_spikes\<close> with the
  population omitted returns 0: \<open>None\<close> is never a key of the counts.
\<close>

lemma add_spike_keeps_None_unset:
  "mem_pop_counts self None = None \<Longrightarrow>
   mem_pop_counts (STMemoryBuffer_add_spike self node_id timestamp population) None = None"
  by (simp add: STMemoryBuffer_add_spike_def Let_def)

lemma add_spikes_keep_None_unset:
  "mem_pop_counts self None = None \<Longrightarrow>
   mem_pop_counts (fold (\<lambda>(n, t, p) b. STMemoryBuffer_add_spike b n t p) calls self) None = None"
  by (induction calls arbitrary: self) (auto simp: add_spike_keeps_None_unset)

lemma n_spikes_None_always_zero:
  "STMemoryBuffer_n_spikes
     (fold (\<lambda>(n, t, p) b. STMemoryBuffer_add_spike b n t p) calls
        (STMemoryBuffer_init pop_na default_pop)) None = 0"
proof -
  have "mem_pop_counts (STMemoryBuffer_init pop_na default_pop) None = None"
    by (simp add: STMemoryBuffer_init_def Let_def)
  from add_spikes_keep_None_unset[OF this] show ?thesis
    by (simp add: STMemoryBuffer_n_spikes_def dict_get0_def)
qed

text \<open>
  No iteration of \<open>spikes\<close> of the memory or the file backend ends normally, whatever the
  buffer, the filters and the order.
\<close>

lemma spikes_loop_never_ends_normally:
  "snd (STMemoryBuffer_spikes_loop self flt idx) \<noteq> None"
  by (induction idx) (auto simp: raise_StopIteration_def Let_def split: prod.splits)

lemma memory_spikes_never_ends_normally:
  "snd (STMemoryBuffer_spikes self nids populations time_window sort_order) \<noteq> None"
  by (simp add: STMemoryBuffer_spikes_def Let_def spikes_loop_never_ends_normally)

lemma csv_spikes_never_ends_normally:
  "snd (snd (STCSVBuffer_spikes self files nids populations time_window sort_order)) \<noteq> None"
  by (auto simp: STCSVBuffer_spikes_def Let_def raise_StopIteration_def
      split: sum.splits option.splits)

subsection \<open>The merge on sources without a common record\<close>

text \<open>Comparisons of heap items with different keys do not raise.\<close>

lemma pair_less: "(k1, r1) < (k2, r2) \<longleftrightarrow> k1 < k2 \<or> (k1 = k2 \<and> r1 < r2)"
  for k1 :: "'a::linorder" and r1 :: "'b::linorder"
  by (auto simp: less_prod_def)

lemma row_lt_less: "row_lt a b \<longleftrightarrow> a < b"
  by (cases a; cases b)
    (auto simp: row_lt_def col_time_def col_population_def col_node_def)

lemma entry_lt_ekey:
  "a \<noteq> None \<Longrightarrow> b \<noteq> None \<Longrightarrow> ekey a \<noteq> ekey b \<Longrightarrow> entry_lt a b = Inr (ekey a < ekey b)"
proof -
  assume "a \<noteq> None" "b \<noteq> None" and ne: "ekey a \<noteq> ekey b"
  then obtain k1 r1 d1 k2 r2 d2 where a: "a = Some (k1, r1, d1)" and b: "b = Some (k2, r2, d2)"
    by (cases a; cases b) auto
  from ne a b have d: "k1 \<noteq> k2 \<or> r1 \<noteq> r2" by (simp add: ekey_def)
  have "ekey a < ekey b \<longleftrightarrow> k1 < k2 \<or> (k1 = k2 \<and> r1 < r2)"
    unfolding a b ekey_def by (simp only: option.sel prod.case pair_less)
  with d show ?thesis unfolding a b by (auto simp: row_lt_less)
qed

lemma good_mset: "mset xs = mset ys \<Longrightarrow> good xs = good ys"
proof -
  assume m: "mset xs = mset ys"
  then have "set xs = set ys" by (rule mset_eq_setD)
  moreover from m have "mset (map ekey xs) = mset (map ekey ys)" by simp
  then have "distinct (map ekey xs) = distinct (map ekey ys)" by (rule mset_eq_imp_distinct_iff)
  ultimately show ?thesis by (simp add: good_def)
qed

lemma good_nth_neq:
  assumes "good xs" "i < length xs" "j < length xs" "i \<noteq> j"
  shows "xs ! i \<noteq> None \<and> xs ! j \<noteq> None \<and> ekey (xs ! i) \<noteq> ekey (xs ! j)"
proof -
  from assms(1) have n: "None \<notin> set xs" and d: "distinct (map ekey xs)" by (simp_all add: good_def)
  from n assms(2,3) have "xs ! i \<noteq> None" "xs ! j \<noteq> None" by (metis nth_mem)+
  moreover from d assms(2-4) have "ekey (xs ! i) \<noteq> ekey (xs ! j)"
    by (auto simp: distinct_conv_nth)
  ultimately show ?thesis by simp
qed

text \<open>\<open>_siftdown\<close> restores the heap property when the item moves towards the root.\<close>

lemma parent_less: "0 < i \<Longrightarrow> (i - 1) div 2 < (i::nat)"
  by arith

lemma hole_okD1:
  "hole_ok h pos \<Longrightarrow> 0 < i \<Longrightarrow> i < length h \<Longrightarrow> i \<noteq> pos \<Longrightarrow> (i - 1) div 2 \<noteq> pos \<Longrightarrow>
   ekey (h ! ((i - 1) div 2)) \<le> ekey (h ! i)"
  unfolding hole_ok_def by (erule allE[of _ i]) simp

lemma hole_okD2:
  "hole_ok h pos \<Longrightarrow> 0 < i \<Longrightarrow> i < length h \<Longrightarrow> i \<noteq> pos \<Longrightarrow> (i - 1) div 2 = pos \<Longrightarrow> 0 < pos \<Longrightarrow>
   ekey (h ! ((pos - 1) div 2)) \<le> ekey (h ! i)"
  unfolding hole_ok_def by (erule allE[of _ i]) simp

lemma hole_ok_fill:
  assumes ok: "hole_ok heap pos" and len: "pos < length heap"
    and up: "0 < pos \<longrightarrow> ekey (heap ! ((pos - 1) div 2)) \<le> ekey x"
    and down: "\<forall>i. 0 < i \<and> i < length heap \<and> (i - 1) div 2 = pos \<longrightarrow> ekey x \<le> ekey (heap ! i)"
  shows "heap_inv (heap[pos := x])"
  unfolding heap_inv_def
proof (intro allI impI)
  fix i assume i: "0 < i \<and> i < length (heap[pos := x])"
  then have i0: "0 < i" and il: "i < length heap" by simp_all
  let ?p = "(i - 1) div 2"
  have pl: "?p < i" using i0 by (rule parent_less)
  show "ekey (heap[pos := x] ! ?p) \<le> ekey (heap[pos := x] ! i)"
  proof (cases "i = pos")
    case True
    with pl have "?p \<noteq> pos" by simp
    with True up i0 len show ?thesis by simp
  next
    case False
    show ?thesis
    proof (cases "?p = pos")
      case True
      with False down i0 il len show ?thesis by simp
    next
      case np: False
      have "ekey (heap ! ?p) \<le> ekey (heap ! i)"
        by (rule hole_okD1[OF ok i0 il False np])
      with False np show ?thesis by simp
    qed
  qed
qed

lemma hole_ok_parent:
  assumes ok: "hole_ok heap pos" and pos: "0 < pos" "pos < length heap"
    and pp: "0 < (pos - 1) div 2"
  shows "ekey (heap ! (((pos - 1) div 2 - 1) div 2)) \<le> ekey (heap ! ((pos - 1) div 2))"
proof -
  let ?pp = "(pos - 1) div 2"
  have a: "?pp < pos" using pos(1) by (rule parent_less)
  have b: "(?pp - 1) div 2 < ?pp" using pp by (rule parent_less)
  from a b have n: "?pp \<noteq> pos" "(?pp - 1) div 2 \<noteq> pos" by simp_all
  from a pos have l: "?pp < length heap" by simp
  show ?thesis by (rule hole_okD1[OF ok pp l n])
qed

lemma hole_ok_move_up:
  assumes ok: "hole_ok heap pos" and pos: "0 < pos" "pos < length heap"
  shows "hole_ok (heap[pos := heap ! ((pos - 1) div 2)]) ((pos - 1) div 2)"
  unfolding hole_ok_def
proof (intro allI impI)
  let ?pp = "(pos - 1) div 2"
  let ?h1 = "heap[pos := heap ! ?pp]"
  fix i assume "0 < i \<and> i < length ?h1 \<and> i \<noteq> ?pp"
  then have i0: "0 < i" and il: "i < length heap" and ip: "i \<noteq> ?pp" by simp_all
  let ?p = "(i - 1) div 2"
  have ppl: "?pp < pos" using pos(1) by (rule parent_less)
  show "if ?p = ?pp then 0 < ?pp \<longrightarrow> ekey (?h1 ! ((?pp - 1) div 2)) \<le> ekey (?h1 ! i)
        else ekey (?h1 ! ?p) \<le> ekey (?h1 ! i)"
  proof (cases "?p = ?pp")
    case True
    have "0 < ?pp \<longrightarrow> ekey (?h1 ! ((?pp - 1) div 2)) \<le> ekey (?h1 ! i)"
    proof
      assume p0: "0 < ?pp"
      have g: "ekey (heap ! ((?pp - 1) div 2)) \<le> ekey (heap ! ?pp)"
        by (rule hole_ok_parent[OF ok pos p0])
      have "(?pp - 1) div 2 < ?pp" using p0 by (rule parent_less)
      with ppl have u: "?h1 ! ((?pp - 1) div 2) = heap ! ((?pp - 1) div 2)" by simp
      show "ekey (?h1 ! ((?pp - 1) div 2)) \<le> ekey (?h1 ! i)"
      proof (cases "i = pos")
        case True
        with pos u g show ?thesis by simp
      next
        case False
        from ppl have "?pp \<noteq> pos" by simp
        with True have "?p \<noteq> pos" by simp
        from hole_okD1[OF ok i0 il False this] True
        have "ekey (heap ! ?pp) \<le> ekey (heap ! i)" by simp
        with g u False show ?thesis by simp
      qed
    qed
    with True show ?thesis by simp
  next
    case False
    then have inp: "i \<noteq> pos" by auto
    have "ekey (?h1 ! ?p) \<le> ekey (?h1 ! i)"
    proof (cases "?p = pos")
      case True
      have "ekey (heap ! ?pp) \<le> ekey (heap ! i)"
        by (rule hole_okD2[OF ok i0 il inp True pos(1)])
      with True inp pos show ?thesis by simp
    next
      case np: False
      have "ekey (heap ! ?p) \<le> ekey (heap ! i)"
        by (rule hole_okD1[OF ok i0 il inp np])
      with np inp show ?thesis by simp
    qed
    with False show ?thesis by simp
  qed
qed

lemma children_after_move_up:
  assumes ok: "hole_ok heap pos" and pos: "0 < pos" "pos < length heap"
    and lt: "ekey x \<le> ekey (heap ! ((pos - 1) div 2))"
  shows "\<forall>i. 0 < i \<and> i < length (heap[pos := heap ! ((pos - 1) div 2)]) \<and> (i - 1) div 2 = (pos - 1) div 2
           \<longrightarrow> ekey x \<le> ekey (heap[pos := heap ! ((pos - 1) div 2)] ! i)"
proof (intro allI impI)
  let ?pp = "(pos - 1) div 2"
  fix i assume a: "0 < i \<and> i < length (heap[pos := heap ! ?pp]) \<and> (i - 1) div 2 = ?pp"
  have ppl: "?pp < pos" using pos(1) by (rule parent_less)
  show "ekey x \<le> ekey (heap[pos := heap ! ?pp] ! i)"
  proof (cases "i = pos")
    case True
    with pos lt show ?thesis by simp
  next
    case False
    from a have i0: "0 < i" and il: "i < length heap" and ip: "(i - 1) div 2 = ?pp" by simp_all
    from ppl ip have "(i - 1) div 2 \<noteq> pos" by simp
    from hole_okD1[OF ok i0 il False this] ip
    have "ekey (heap ! ?pp) \<le> ekey (heap ! i)" by simp
    with lt False show ?thesis by simp
  qed
qed

lemma siftdown_heap_inv:
  "startpos = 0 \<Longrightarrow> pos < length heap \<Longrightarrow> good (heap[pos := x]) \<Longrightarrow> hole_ok heap pos \<Longrightarrow>
   \<forall>i. 0 < i \<and> i < length heap \<and> (i - 1) div 2 = pos \<longrightarrow> ekey x \<le> ekey (heap ! i) \<Longrightarrow>
   \<exists>h'. siftdown heap startpos pos x = Inr h' \<and> heap_inv h'"
proof (induction heap startpos pos x rule: siftdown.induct)
  case (1 heap startpos pos x)
  let ?pp = "(pos - 1) div 2"
  note len = "1.prems"(2) and gd = "1.prems"(3) and ok = "1.prems"(4) and down = "1.prems"(5)
  show ?case
  proof (cases "0 < pos")
    case False
    then have p0: "pos = 0" by simp
    have "heap_inv (heap[pos := x])"
      by (rule hole_ok_fill[OF ok len _ down]) (simp add: p0)
    with p0 "1.prems"(1) show ?thesis by (subst siftdown.simps) simp
  next
    case True
    have ppl: "?pp < pos" using True by (rule parent_less)
    from good_nth_neq[OF gd, of pos ?pp] len ppl
    have c: "entry_lt x (heap ! ?pp) = Inr (ekey x < ekey (heap ! ?pp))"
      by (simp add: entry_lt_ekey)
    show ?thesis
    proof (cases "ekey x < ekey (heap ! ?pp)")
      case lt: True
      let ?h1 = "heap[pos := heap ! ?pp]"
      have l1: "?pp < length ?h1" using ppl len by simp
      have "mset (?h1[?pp := x]) = mset (heap[pos := x])"
        using mset_update_swap[OF len, of ?pp x] ppl len by simp
      with gd have g1: "good (?h1[?pp := x])" using good_mset by blast
      have o1: "hole_ok ?h1 ?pp" by (rule hole_ok_move_up[OF ok True len])
      have d1: "\<forall>i. 0 < i \<and> i < length ?h1 \<and> (i - 1) div 2 = ?pp \<longrightarrow> ekey x \<le> ekey (?h1 ! i)"
        using children_after_move_up[OF ok True len, of x] lt by simp
      from True "1.prems"(1) have gt: "startpos < pos" by simp
      from "1.IH"[OF gt c lt "1.prems"(1) l1 g1 o1 d1]
      obtain h' where "siftdown ?h1 startpos ?pp x = Inr h'" "heap_inv h'" by blast
      with gt c lt show ?thesis by (subst siftdown.simps) simp
    next
      case ge: False
      then have "ekey (heap ! ?pp) \<le> ekey x" by simp
      then have "heap_inv (heap[pos := x])"
        by (intro hole_ok_fill[OF ok len _ down]) simp
      with True "1.prems"(1) c ge show ?thesis by (subst siftdown.simps) simp
    qed
  qed
qed

text \<open>\<open>_siftup\<close>, \<open>heappush\<close> and \<open>heappop\<close> keep the heap property; the root is least.\<close>

lemma hole_ok_update_hole: "hole_ok (h[pos := v]) pos = hole_ok h pos"
proof -
  have "0 < pos \<Longrightarrow> (pos - 1) div 2 \<noteq> pos" using parent_less[of pos] by simp
  then show ?thesis
    unfolding hole_ok_def by (auto simp: nth_list_update)
qed

lemma child_cases: "0 < i \<Longrightarrow> (i - 1) div 2 = pos \<Longrightarrow> i = 2 * pos + 1 \<or> i = 2 * pos + 2"
  for i pos :: nat
  by arith

lemma smaller_child_ok:
  assumes c: "2 * pos + 1 < length heap" and gd: "good (heap[pos := x])"
  shows "\<exists>c'. smaller_child heap (2 * pos + 1) = Inr c' \<and> c' < length heap \<and>
           (c' = 2 * pos + 1 \<or> c' = 2 * pos + 2) \<and>
           (\<forall>j. j < length heap \<and> (j = 2 * pos + 1 \<or> j = 2 * pos + 2)
                 \<longrightarrow> ekey (heap ! c') \<le> ekey (heap ! j))"
proof (cases "2 * pos + 2 < length heap")
  case False
  with c show ?thesis by (auto simp: smaller_child_def)
next
  case True
  let ?l = "2 * pos + 1" and ?r = "2 * pos + 2"
  from good_nth_neq[OF gd, of ?l ?r] True
  have "entry_lt (heap ! ?l) (heap ! ?r) = Inr (ekey (heap ! ?l) < ekey (heap ! ?r))"
    by (simp add: entry_lt_ekey)
  with True have sc: "smaller_child heap ?l
      = Inr (if \<not> ekey (heap ! ?l) < ekey (heap ! ?r) then ?r else ?l)"
    by (simp add: smaller_child_def)
  show ?thesis
  proof (cases "ekey (heap ! ?l) < ekey (heap ! ?r)")
    case lt: True
    with sc c show ?thesis by auto
  next
    case ge: False
    with sc True show ?thesis by auto
  qed
qed

lemma hole_ok_move_down:
  assumes ok: "hole_ok heap pos" and c: "c < length heap" "c = 2 * pos + 1 \<or> c = 2 * pos + 2"
    and least: "\<forall>j. j < length heap \<and> (j = 2 * pos + 1 \<or> j = 2 * pos + 2)
                   \<longrightarrow> ekey (heap ! c) \<le> ekey (heap ! j)"
  shows "hole_ok (heap[pos := heap ! c]) c"
  unfolding hole_ok_def
proof (intro allI impI)
  let ?h1 = "heap[pos := heap ! c]"
  fix i assume "0 < i \<and> i < length ?h1 \<and> i \<noteq> c"
  then have i0: "0 < i" and il: "i < length heap" and ic: "i \<noteq> c" by simp_all
  let ?p = "(i - 1) div 2"
  from c have cp: "(c - 1) div 2 = pos" and c0: "0 < c" and pc: "pos < c" by auto
  from pc c have pl: "pos < length heap" by simp
  show "if ?p = c then 0 < c \<longrightarrow> ekey (?h1 ! ((c - 1) div 2)) \<le> ekey (?h1 ! i)
        else ekey (?h1 ! ?p) \<le> ekey (?h1 ! i)"
  proof (cases "?p = c")
    case True
    with pc have ip: "i \<noteq> pos" using parent_less[OF i0] by simp
    from True pc have "?p \<noteq> pos" by simp
    from hole_okD1[OF ok i0 il ip this] True have "ekey (heap ! c) \<le> ekey (heap ! i)" by simp
    with True cp ip pl show ?thesis by simp
  next
    case False
    have "ekey (?h1 ! ?p) \<le> ekey (?h1 ! i)"
    proof (cases "i = pos")
      case True
      with i0 have p0: "0 < pos" by simp
      from parent_less[OF p0] have pn: "(pos - 1) div 2 \<noteq> pos" by simp
      from pc have "c \<noteq> pos" by simp
      from hole_okD2[OF ok c0 c(1) this cp p0]
      have "ekey (heap ! ((pos - 1) div 2)) \<le> ekey (heap ! c)" .
      with True pn pl show ?thesis by simp
    next
      case ip: False
      show ?thesis
      proof (cases "?p = pos")
        case True
        from child_cases[OF i0 True] il least have "ekey (heap ! c) \<le> ekey (heap ! i)" by blast
        with True ip pl show ?thesis by simp
      next
        case np: False
        from hole_okD1[OF ok i0 il ip np] np ip show ?thesis by simp
      qed
    qed
    with False show ?thesis by simp
  qed
qed

lemma siftup_loop_heap:
  "pos < length heap \<Longrightarrow> good (heap[pos := x]) \<Longrightarrow> hole_ok heap pos \<Longrightarrow>
   \<exists>h' pos'. siftup_loop heap pos = Inr (h', pos') \<and> hole_ok h' pos' \<and> \<not> 2 * pos' + 1 < length h'"
proof (induction heap pos rule: siftup_loop.induct)
  case (1 heap pos)
  show ?case
  proof (cases "2 * pos + 1 < length heap")
    case False
    with "1.prems" show ?thesis by (subst siftup_loop.simps) simp
  next
    case True
    from smaller_child_ok[OF True "1.prems"(2)] obtain c where
      sc: "smaller_child heap (2 * pos + 1) = Inr c" and cl: "c < length heap"
      and cc: "c = 2 * pos + 1 \<or> c = 2 * pos + 2"
      and least: "\<forall>j. j < length heap \<and> (j = 2 * pos + 1 \<or> j = 2 * pos + 2)
                   \<longrightarrow> ekey (heap ! c) \<le> ekey (heap ! j)" by blast
    let ?h1 = "heap[pos := heap ! c]"
    have l1: "c < length ?h1" using cl by simp
    have "mset (?h1[c := x]) = mset (heap[pos := x])"
      by (rule mset_update_swap[OF "1.prems"(1) cl])
    with "1.prems"(2) have g1: "good (?h1[c := x])" using good_mset by blast
    have o1: "hole_ok ?h1 c" by (rule hole_ok_move_down[OF "1.prems"(3) cl cc least])
    from "1.IH"[OF True sc l1 g1 o1] obtain h' pos' where
      "siftup_loop ?h1 c = Inr (h', pos')" "hole_ok h' pos'" "\<not> 2 * pos' + 1 < length h'" by blast
    with True sc show ?thesis by (subst siftup_loop.simps) simp
  qed
qed

lemma siftup_heap_inv:
  assumes ne: "heap \<noteq> []" and gd: "good heap" and ok: "hole_ok heap 0"
  shows "\<exists>h'. siftup heap 0 = Inr h' \<and> heap_inv h'"
proof -
  let ?x = "heap ! 0"
  from ne have l: "0 < length heap" by (cases heap) simp_all
  from gd have g0: "good (heap[0 := ?x])" by simp
  from siftup_loop_heap[OF l g0 ok] obtain h1 p1 where
    sl: "siftup_loop heap 0 = Inr (h1, p1)" and o1: "hole_ok h1 p1"
    and leaf: "\<not> 2 * p1 + 1 < length h1" by blast
  from siftup_loop_mset[OF l sl, of ?x]
  have p1: "p1 < length h1" and m: "mset (h1[p1 := ?x]) = mset heap" by simp_all
  let ?h2 = "h1[p1 := ?x]"
  have a: "p1 < length ?h2" using p1 by simp
  from m gd have b: "good (?h2[p1 := ?x])" using good_mset[of ?h2 heap] by simp
  have c: "hole_ok ?h2 p1" using o1 by (simp add: hole_ok_update_hole)
  have d: "\<forall>i. 0 < i \<and> i < length ?h2 \<and> (i - 1) div 2 = p1 \<longrightarrow> ekey ?x \<le> ekey (?h2 ! i)"
  proof (intro allI impI)
    fix i assume i: "0 < i \<and> i < length ?h2 \<and> (i - 1) div 2 = p1"
    then have "i = 2 * p1 + 1 \<or> i = 2 * p1 + 2" using child_cases by blast
    with i leaf show "ekey ?x \<le> ekey (?h2 ! i)" by auto
  qed
  from siftdown_heap_inv[OF refl a b c d] obtain h' where
    "siftdown ?h2 0 p1 ?x = Inr h'" "heap_inv h'" by blast
  with sl show ?thesis by (auto simp: siftup_def Let_def)
qed

lemma heappush_heap_inv:
  assumes inv: "heap_inv h" and gd: "good (h @ [x])"
  shows "\<exists>h'. heappush h x = Inr h' \<and> heap_inv h'"
proof -
  let ?h = "h @ [x]" and ?pos = "length h"
  have a: "?pos < length ?h" by simp
  have b: "good (?h[?pos := x])" using gd by simp
  have c: "hole_ok ?h ?pos"
    unfolding hole_ok_def
  proof (intro allI impI)
    fix i assume "0 < i \<and> i < length ?h \<and> i \<noteq> ?pos"
    then have i0: "0 < i" and il: "i < length h" by simp_all
    from parent_less[OF i0] il have pl: "(i - 1) div 2 < length h" by simp
    from inv i0 il have "ekey (h ! ((i - 1) div 2)) \<le> ekey (h ! i)" by (simp add: heap_inv_def)
    with il pl show "if (i - 1) div 2 = ?pos
        then 0 < ?pos \<longrightarrow> ekey (?h ! ((?pos - 1) div 2)) \<le> ekey (?h ! i)
        else ekey (?h ! ((i - 1) div 2)) \<le> ekey (?h ! i)"
      by (simp add: nth_append)
  qed
  have d: "\<forall>i. 0 < i \<and> i < length ?h \<and> (i - 1) div 2 = ?pos \<longrightarrow> ekey x \<le> ekey (?h ! i)"
  proof (intro allI impI)
    fix i assume i: "0 < i \<and> i < length ?h \<and> (i - 1) div 2 = ?pos"
    with parent_less[of i] have False by simp
    then show "ekey x \<le> ekey (?h ! i)" ..
  qed
  from siftdown_heap_inv[OF refl a b c d] show ?thesis by (simp add: heappush_def)
qed

lemma heap_inv_hole_ok0: "heap_inv h \<Longrightarrow> hole_ok h 0"
  by (simp add: heap_inv_def hole_ok_def)

lemma heap_inv_butlast: "heap_inv h \<Longrightarrow> heap_inv (butlast h)"
  unfolding heap_inv_def
proof (intro allI impI)
  fix i assume inv: "\<forall>i. 0 < i \<and> i < length h \<longrightarrow> ekey (h ! ((i - 1) div 2)) \<le> ekey (h ! i)"
    and i: "0 < i \<and> i < length (butlast h)"
  then have i0: "0 < i" and il: "i < length h - 1" by simp_all
  from parent_less[OF i0] il have "(i - 1) div 2 < length h - 1" by simp
  with il inv i0 show "ekey (butlast h ! ((i - 1) div 2)) \<le> ekey (butlast h ! i)"
    by (simp add: nth_butlast)
qed

lemma good_tl: "good h \<Longrightarrow> good (tl h)"
  by (cases h) (auto simp: good_def)

lemma heappop_heap_inv:
  assumes inv: "heap_inv h" and gd: "good h" and ne: "h \<noteq> []"
  shows "\<exists>h'. heappop h = Inr (h ! 0, h') \<and> heap_inv h'"
proof (cases "butlast h = []")
  case True
  with ne have "h = [last h]" by (metis append_Nil append_butlast_last_id)
  then have "last h = h ! 0" by (metis nth_Cons_0)
  with True ne show ?thesis by (simp add: heappop_def Let_def heap_inv_def)
next
  case False
  let ?b = "butlast h"
  from False have l: "0 < length ?b" by (cases ?b) simp_all
  have hh: "h = ?b @ [last h]" using ne by simp
  have b0: "?b ! 0 = h ! 0" using l by (simp add: nth_butlast)
  from l b0 have "h ! 0 \<in># mset ?b" by (metis nth_mem set_mset_mset)
  then obtain M where M: "mset ?b = add_mset (h ! 0) M" by (rule mset_add)
  have mh: "mset h = add_mset (last h) (mset ?b)" by (subst hh) simp
  have "mset (?b[0 := last h]) = add_mset (last h) (mset ?b - {#?b ! 0#})"
    using l by (simp add: mset_update)
  also have "\<dots> = add_mset (last h) M" by (simp add: b0 M)
  also have "\<dots> = mset h - {#h ! 0#}" by (simp add: mh M)
  also have "\<dots> = mset (tl h)" using ne by (cases h) simp_all
  finally have "mset (?b[0 := last h]) = mset (tl h)" .
  with good_tl[OF gd] have g: "good (?b[0 := last h])" using good_mset by blast
  have o: "hole_ok (?b[0 := last h]) 0"
    using heap_inv_hole_ok0[OF heap_inv_butlast[OF inv]] by (simp add: hole_ok_update_hole)
  have n: "?b[0 := last h] \<noteq> []" using False by simp
  from siftup_heap_inv[OF n g o] obtain h' where
    "siftup (?b[0 := last h]) 0 = Inr h'" "heap_inv h'" by blast
  with False ne b0 show ?thesis by (simp add: heappop_def Let_def)
qed

lemma heap_root_min: "heap_inv h \<Longrightarrow> i < length h \<Longrightarrow> ekey (h ! 0) \<le> ekey (h ! i)"
proof (induction i rule: less_induct)
  case (less i)
  show ?case
  proof (cases "i = 0")
    case True
    then show ?thesis by simp
  next
    case False
    then have i0: "0 < i" by simp
    from parent_less[OF i0] less.prems(2) have "(i - 1) div 2 < length h" by simp
    from less.IH[OF parent_less[OF i0] less.prems(1) this]
    have "ekey (h ! 0) \<le> ekey (h ! ((i - 1) div 2))" .
    moreover from less.prems i0 have "ekey (h ! ((i - 1) div 2)) \<le> ekey (h ! i)"
      by (simp add: heap_inv_def)
    ultimately show ?thesis by (rule order_trans)
  qed
qed

text \<open>Each round of the merge loop emits a record with the least sort key.\<close>

lemma unique_add: "unique (add_mset a M) \<longleftrightarrow> a \<notin># M \<and> unique M"
  unfolding unique_def
proof
  assume h: "\<forall>x. count (add_mset a M) x \<le> 1"
  have "count (add_mset a M) a \<le> 1" using h by blast
  then have "count M a = 0" by simp
  then have "a \<notin># M" by (simp add: count_eq_zero_iff)
  moreover have "\<forall>x. count M x \<le> 1"
  proof
    fix x from h have "count (add_mset a M) x \<le> 1" by blast
    then show "count M x \<le> 1" by (simp split: if_splits)
  qed
  ultimately show "a \<notin># M \<and> (\<forall>x. count M x \<le> 1)" by simp
next
  assume h: "a \<notin># M \<and> (\<forall>x. count M x \<le> 1)"
  then have "count M a = 0" by (simp add: count_eq_zero_iff)
  with h show "\<forall>x. count (add_mset a M) x \<le> 1" by simp
qed

lemma unique_mono: "M \<subseteq># N \<Longrightarrow> unique N \<Longrightarrow> unique M"
  unfolding unique_def by (meson mset_subset_eq_count order_trans)

lemma rows_mset_Nil [simp]: "rows_mset [] = {#}"
  by (simp add: rows_mset_def)

lemma rows_mset_Cons [simp]: "rows_mset (e # h) = mset (entry_rows e) + rows_mset h"
  by (simp add: rows_mset_def)

lemma rows_mset_cong: "mset h = mset h' \<Longrightarrow> rows_mset h = rows_mset h'"
  by (simp add: rows_mset_def)

lemma rows_mset_add: "mset h = add_mset x (mset h') \<Longrightarrow> rows_mset h = mset (entry_rows x) + rows_mset h'"
  by (simp add: rows_mset_def)

lemma entry_rows_in_rows_mset: "e \<in> set h \<Longrightarrow> mset (entry_rows e) \<subseteq># rows_mset h"
  by (induction h) (auto intro: subset_mset.order_trans)

lemma wf_entry_Some: "wf_entry sc e \<Longrightarrow> \<exists>row rd. e = Some (sc row, row, rd) \<and> sorted (map sc (row # rd))"
  by (cases e) (auto simp: wf_entry_def)

lemma good_of_unique:
  "\<forall>e\<in>set h. wf_entry sc e \<Longrightarrow> unique (rows_mset h) \<Longrightarrow> good h"
proof (induction h)
  case Nil
  then show ?case by (simp add: good_def)
next
  case (Cons e h)
  from Cons.prems(1) obtain row rd where e: "e = Some (sc row, row, rd)"
    using wf_entry_Some[of sc e] by auto
  have sub: "rows_mset h \<subseteq># rows_mset (e # h)" by simp
  from Cons.IH Cons.prems unique_mono[OF sub] have g: "good h" by simp
  from Cons.prems(2) e have nin: "row \<notin># mset rd + rows_mset h"
    by (simp add: entry_rows_def unique_add)
  have "ekey e \<notin> ekey ` set h"
  proof
    assume "ekey e \<in> ekey ` set h"
    then obtain e' where e': "e' \<in> set h" "ekey e' = ekey e" by auto
    from Cons.prems(1) e'(1) obtain row' rd' where r': "e' = Some (sc row', row', rd')"
      using wf_entry_Some[of sc e'] by auto
    with e e'(2) have "row' = row" by (simp add: ekey_def)
    with r' have "row \<in># mset (entry_rows e')" by (simp add: entry_rows_def)
    with entry_rows_in_rows_mset[OF e'(1)] have "row \<in># rows_mset h"
      by (meson mset_subset_eqD)
    with nin show False by simp
  qed
  with g e show ?case by (simp add: good_def)
qed

lemma rows_mset_mem: "r \<in># rows_mset h \<longleftrightarrow> (\<exists>e\<in>set h. r \<in> set (entry_rows e))"
  by (induction h) auto

lemma fst_le_of_pair_le: "(a, b) \<le> (c, d) \<Longrightarrow> a \<le> c"
  for a c :: "'a::linorder" and b d :: "'b::linorder"
  by (auto simp: less_eq_prod_def)

lemma root_row_least:
  assumes inv: "merge_inv sc h" and root: "h ! 0 = Some (v, row, rd)" and r: "r \<in># rows_mset h"
  shows "sc row \<le> sc r"
proof -
  from r obtain e where e: "e \<in> set h" "r \<in> set (entry_rows e)" by (auto simp: rows_mset_mem)
  then obtain i where i: "i < length h" "h ! i = e" by (auto simp: in_set_conv_nth)
  from inv e(1) obtain row' rd' where e': "e = Some (sc row', row', rd')"
    and s: "sorted (map sc (row' # rd'))"
    using wf_entry_Some[of sc e] by (auto simp: merge_inv_def)
  from i have h0: "h ! 0 \<in> set h" by (metis length_pos_if_in_set nth_mem e(1))
  with inv root have v: "v = sc row" using wf_entry_Some[of sc "h ! 0"] by (auto simp: merge_inv_def)
  from inv i(1) have "ekey (h ! 0) \<le> ekey (h ! i)" by (auto simp: merge_inv_def intro: heap_root_min)
  with root i(2) e' v have "sc row \<le> sc row'" by (auto simp: ekey_def dest: fst_le_of_pair_le)
  moreover from e(2) e' s have "sc row' \<le> sc r" by (auto simp: entry_rows_def)
  ultimately show ?thesis by (rule order_trans)
qed

lemma set_mset_eq_add: "mset h = add_mset x (mset h1) \<Longrightarrow> set h1 \<subseteq> set h \<and> x \<in> set h"
  by (metis insert_iff set_mset_add_mset_insert set_mset_mset subsetI)

lemma pop_step:
  assumes inv: "merge_inv sc h" and ne: "h \<noteq> []"
  shows "\<exists>row rd h1. heappop h = Inr (Some (sc row, row, rd), h1) \<and> h ! 0 = Some (sc row, row, rd)
           \<and> sorted (map sc (row # rd))
           \<and> rows_mset h = add_mset row (mset rd + rows_mset h1)
           \<and> merge_inv sc h1"
proof -
  from inv have hi: "heap_inv h" and wf: "\<forall>e\<in>set h. wf_entry sc e" and un: "unique (rows_mset h)"
    by (simp_all add: merge_inv_def)
  from good_of_unique[OF wf un] have gd: "good h" .
  from heappop_heap_inv[OF hi gd ne] obtain h1 where
    pop: "heappop h = Inr (h ! 0, h1)" and hi1: "heap_inv h1" by blast
  from heappop_mset[OF pop] have m: "mset h = add_mset (h ! 0) (mset h1)" .
  from set_mset_eq_add[OF m] have sub: "set h1 \<subseteq> set h" and h0: "h ! 0 \<in> set h" by simp_all
  from wf h0 obtain row rd where r: "h ! 0 = Some (sc row, row, rd)"
    and s: "sorted (map sc (row # rd))" using wf_entry_Some[of sc "h ! 0"] by auto
  from rows_mset_add[OF m] r have rm: "rows_mset h = add_mset row (mset rd + rows_mset h1)"
    by (simp add: entry_rows_def)
  have "rows_mset h1 \<subseteq># rows_mset h" unfolding rm by simp
  from unique_mono[OF this un] have "unique (rows_mset h1)" .
  with hi1 wf sub have i1: "merge_inv sc h1" by (auto simp: merge_inv_def)
  from pop r have pop': "heappop h = Inr (Some (sc row, row, rd), h1)" by simp
  from pop' r s rm i1 show ?thesis by blast
qed

lemma push_step:
  assumes inv: "merge_inv sc h1" and s: "sorted (map sc (rn # rest))"
    and un: "unique (add_mset rn (mset rest + rows_mset h1))"
  shows "\<exists>h2. heappush h1 (Some (sc rn, rn, rest)) = Inr h2 \<and> merge_inv sc h2
           \<and> rows_mset h2 = add_mset rn (mset rest + rows_mset h1)"
proof -
  let ?n = "Some (sc rn, rn, rest)"
  from inv have hi: "heap_inv h1" and wf: "\<forall>e\<in>set h1. wf_entry sc e" by (simp_all add: merge_inv_def)
  have wfn: "wf_entry sc ?n" using s by (simp add: wf_entry_def)
  have rm: "rows_mset (h1 @ [?n]) = add_mset rn (mset rest + rows_mset h1)"
    by (simp add: rows_mset_def entry_rows_def)
  have wf2: "\<forall>e\<in>set (h1 @ [?n]). wf_entry sc e" using wf wfn by simp
  from good_of_unique[OF wf2] un rm have gd: "good (h1 @ [?n])" by simp
  from heappush_heap_inv[OF hi gd] obtain h2 where
    push: "heappush h1 ?n = Inr h2" and hi2: "heap_inv h2" by blast
  from heappush_mset[OF push] have m: "mset h2 = mset (h1 @ [?n])" by simp
  then have "set h2 = set (h1 @ [?n])" by (rule mset_eq_setD)
  with wf2 have wf3: "\<forall>e\<in>set h2. wf_entry sc e" by simp
  from rows_mset_cong[OF m] rm have rm2: "rows_mset h2 = add_mset rn (mset rest + rows_mset h1)" by simp
  with hi2 wf3 un have "merge_inv sc h2" by (simp add: merge_inv_def)
  with push rm2 show ?thesis by blast
qed

lemma sorted_loop_merge:
  "merge_inv sc h \<Longrightarrow>
   \<exists>m. sorted_loop flt sc h
          = (filter (\<lambda>r. flt (col_population r) (real_of_int (col_node r))) m, None)
       \<and> mset m = rows_mset h \<and> sorted (map sc m)"
proof (induction "size (rows_mset h)" arbitrary: h rule: less_induct)
  case less
  let ?P = "\<lambda>r. flt (col_population r) (real_of_int (col_node r))"
  show ?case
  proof (cases "h = []")
    case True
    then have "sorted_loop flt sc h = (filter ?P [], None)" by (simp add: sorted_loop.simps)
    with True show ?thesis by (intro exI[of _ "[]"]) simp
  next
    case False
    from pop_step[OF less.prems False] obtain row rd h1 where
      pop: "heappop h = Inr (Some (sc row, row, rd), h1)"
      and root: "h ! 0 = Some (sc row, row, rd)"
      and s: "sorted (map sc (row # rd))"
      and rm: "rows_mset h = add_mset row (mset rd + rows_mset h1)"
      and inv1: "merge_inv sc h1" by blast
    from less.prems have un: "unique (rows_mset h)" by (simp add: merge_inv_def)
    have "\<exists>h2. (case next_row sc rd of None \<Rightarrow> Inr h1 | Some n \<Rightarrow> heappush h1 (Some n)) = Inr h2
            \<and> merge_inv sc h2 \<and> rows_mset h = add_mset row (rows_mset h2)"
    proof (cases rd)
      case Nil
      with inv1 rm show ?thesis by (simp add: next_row_def)
    next
      case (Cons rn rest)
      from s Cons have s': "sorted (map sc (rn # rest))" by simp
      from un rm Cons have "unique (add_mset rn (mset rest + rows_mset h1))"
        by (simp add: unique_add)
      from push_step[OF inv1 s' this] obtain h2 where
        "heappush h1 (Some (sc rn, rn, rest)) = Inr h2" "merge_inv sc h2"
        "rows_mset h2 = add_mset rn (mset rest + rows_mset h1)" by blast
      with rm Cons show ?thesis by (simp add: next_row_def)
    qed
    then obtain h2 where
      step: "(case next_row sc rd of None \<Rightarrow> Inr h1 | Some n \<Rightarrow> heappush h1 (Some n)) = Inr h2"
      and inv2: "merge_inv sc h2" and rm2: "rows_mset h = add_mset row (rows_mset h2)" by blast
    from rm2 have "size (rows_mset h2) < size (rows_mset h)" by simp
    from less.hyps[OF this inv2] obtain m2 where
      l2: "sorted_loop flt sc h2 = (filter ?P m2, None)"
      and m2: "mset m2 = rows_mset h2" and s2: "sorted (map sc m2)" by blast
    have least: "\<forall>r\<in>set m2. sc row \<le> sc r"
    proof
      fix r assume "r \<in> set m2"
      then have "r \<in># rows_mset h2" using m2 by (metis set_mset_mset)
      then have "r \<in># rows_mset h" using rm2 by simp
      from root_row_least[OF less.prems root this] show "sc row \<le> sc r" .
    qed
    have "sorted_loop flt sc h = yield_if (?P row) row (sorted_loop flt sc h2)"
      using False pop step by (subst sorted_loop.simps) simp
    with l2 have "sorted_loop flt sc h = (filter ?P (row # m2), None)"
      by (simp add: yield_if_def)
    moreover have "mset (row # m2) = rows_mset h" using m2 rm2 by simp
    moreover have "sorted (map sc (row # m2))" using s2 least by simp
    ultimately show ?thesis by blast
  qed
qed

lemma merge_inv_Nil: "merge_inv sc []"
  by (simp add: merge_inv_def heap_inv_def unique_def)

lemma unique_mset_distinct: "distinct xs \<Longrightarrow> unique (mset xs)"
  by (simp add: unique_def distinct_count_atmost_1)

lemma heappush_all_merge:
  "merge_inv sc h \<Longrightarrow> \<forall>s\<in>set srcs. s \<noteq> [] \<and> sorted (map sc s) \<Longrightarrow>
   unique (rows_mset h + mset (concat srcs)) \<Longrightarrow>
   \<exists>h'. heappush_all h (map (next_row sc) srcs) = Inr h' \<and> merge_inv sc h'
        \<and> rows_mset h' = rows_mset h + mset (concat srcs)"
proof (induction srcs arbitrary: h)
  case Nil
  then show ?case by simp
next
  case (Cons s srcs)
  from Cons.prems(2) obtain rn rest where s: "s = rn # rest" and so: "sorted (map sc (rn # rest))"
    by (cases s) auto
  have "add_mset rn (mset rest + rows_mset h) \<subseteq># rows_mset h + mset (concat (s # srcs))"
    by (simp add: s)
  from unique_mono[OF this Cons.prems(3)] have u: "unique (add_mset rn (mset rest + rows_mset h))" .
  from push_step[OF Cons.prems(1) so u] obtain h2 where
    p: "heappush h (Some (sc rn, rn, rest)) = Inr h2" and i2: "merge_inv sc h2"
    and r2: "rows_mset h2 = add_mset rn (mset rest + rows_mset h)" by blast
  have e: "rows_mset h2 + mset (concat srcs) = rows_mset h + mset (concat (s # srcs))"
    by (simp add: r2 s)
  from Cons.prems(2) have rest_ok: "\<forall>s\<in>set srcs. s \<noteq> [] \<and> sorted (map sc s)" by simp
  from Cons.prems(3) have u2: "unique (rows_mset h2 + mset (concat srcs))" unfolding e .
  from Cons.IH[OF i2 rest_ok u2] obtain h' where
    hp: "heappush_all h2 (map (next_row sc) srcs) = Inr h'" and i': "merge_inv sc h'"
    and r': "rows_mset h' = rows_mset h2 + mset (concat srcs)" by blast
  have nr: "next_row sc s = Some (sc rn, rn, rest)" by (simp add: next_row_def s)
  have "heappush_all h (map (next_row sc) (s # srcs)) = Inr h'" using p hp nr by simp
  moreover have "rows_mset h' = rows_mset h + mset (concat (s # srcs))" unfolding r' e ..
  ultimately show ?case using i' by blast
qed

lemma sorted_itr_merge:
  assumes op: "open_all files fns = Inr srcs"
    and ok: "\<forall>s\<in>set srcs. s \<noteq> [] \<and> sorted (map sc s)"
    and d: "distinct (concat srcs)"
  shows "\<exists>m. sorted_itr files fns flt sc
            = (filter (\<lambda>r. flt (col_population r) (real_of_int (col_node r))) m, None)
          \<and> mset m = mset (concat srcs) \<and> sorted (map sc m)"
proof -
  from unique_mset_distinct[OF d] have u: "unique (rows_mset [] + mset (concat srcs))" by simp
  from heappush_all_merge[OF merge_inv_Nil ok u] obtain h where
    h: "heappush_all [] (map (next_row sc) srcs) = Inr h" and i: "merge_inv sc h"
    and r: "rows_mset h = mset (concat srcs)" by auto
  from sorted_loop_merge[OF i, of flt] r op h show ?thesis by (simp add: sorted_itr_def)
qed

lemma sort_all_by_time:
  "distinct fns \<Longrightarrow> \<forall>fn\<in>set fns. files fn \<noteq> None \<Longrightarrow>
   \<exists>files'. sort_all fns by_time files = Inr files' \<and>
     (\<forall>fn. files' fn = (if fn \<in> set fns then Some (sort_key col_time (the (files fn))) else files fn))"
proof (induction fns arbitrary: files)
  case Nil
  then show ?case by simp
next
  case (Cons f fns)
  from Cons.prems(2) obtain rows where rows: "files f = Some rows" by auto
  let ?f1 = "files(f \<mapsto> sort_key col_time rows)"
  have s1: "sort_buffer_file f by_time files = Inr ?f1"
    by (simp add: sort_buffer_file_def sort_values_def rows)
  from Cons.prems have d: "distinct fns" and p: "\<forall>fn\<in>set fns. ?f1 fn \<noteq> None" by auto
  from Cons.IH[OF d p] obtain f2 where
    s2: "sort_all fns by_time ?f1 = Inr f2"
    and c2: "\<forall>fn. f2 fn = (if fn \<in> set fns then Some (sort_key col_time (the (?f1 fn))) else ?f1 fn)"
    by blast
  from Cons.prems(1) have nin: "f \<notin> set fns" by simp
  have "\<forall>fn. f2 fn = (if fn \<in> set (f # fns) then Some (sort_key col_time (the (files fn))) else files fn)"
    using c2 nin rows by auto
  with s1 s2 show ?case by simp
qed

lemma mset_concat_sorted:
  "mset (concat (map (sort_key f) xss)) = mset (concat xss)"
  by (induction xss) simp_all

lemma distinct_all_cached_files: "distinct (all_cached_files n self)"
  by (simp add: all_cached_files_def distinct_map inj_on_def)

text \<open>
  The sorted retrieval by time without filters, when the flush succeeds, every per-rank
  file exists and holds a record, and no record occurs twice in the files: the iteration
  ends normally and its items are the records of all files, each once, in non-decreasing
  order of timestamp.
\<close>

theorem merge_by_time:
  assumes flush: "STCSVBuffer_flush self files = Inr (self1, files1)"
    and present: "\<forall>r<MPI_size. \<exists>rows. files1 (NodeCacheFile (csv_cache_dir self) r) = Some rows \<and> rows \<noteq> []"
    and d: "distinct (concat (map (\<lambda>r. the (files1 (NodeCacheFile (csv_cache_dir self) r))) [0..<MPI_size]))"
  shows "\<exists>m. snd (STMPIBuffer_spikes MPI_size self files nids None None by_time) = (m, None)
          \<and> mset m = mset (concat (map (\<lambda>r. the (files1 (NodeCacheFile (csv_cache_dir self) r))) [0..<MPI_size]))
          \<and> sorted (map col_time m)"
proof -
  let ?fns = "all_cached_files MPI_size self1"
  let ?srcs = "map (\<lambda>r. the (files1 (NodeCacheFile (csv_cache_dir self) r))) [0..<MPI_size]"
  from flush have dir: "csv_cache_dir self1 = csv_cache_dir self"
    by (auto simp: STCSVBuffer_flush_def split: sum.splits)
  have src: "?srcs = map (\<lambda>fn. the (files1 fn)) ?fns"
    by (simp add: all_cached_files_def dir comp_def)
  from present dir have p1: "\<forall>fn\<in>set ?fns. files1 fn \<noteq> None"
    by (auto simp: all_cached_files_def)
  from present dir have ne: "\<forall>fn\<in>set ?fns. the (files1 fn) \<noteq> []"
    by (auto simp: all_cached_files_def)
  from sort_all_by_time[OF distinct_all_cached_files p1] obtain files2 where
    s: "sort_all ?fns by_time files1 = Inr files2"
    and c: "\<forall>fn. files2 fn = (if fn \<in> set ?fns then Some (sort_key col_time (the (files1 fn))) else files1 fn)"
    by blast
  from c have p2: "\<forall>fn\<in>set ?fns. files2 fn \<noteq> None" by simp
  let ?s2 = "map (\<lambda>fn. the (files2 fn)) ?fns"
  from c have s2: "?s2 = map (sort_key col_time) ?srcs" by (simp add: src)
  have ok: "\<forall>s\<in>set ?s2. s \<noteq> [] \<and> sorted (map col_time s)"
    using c ne by (auto simp: sort_key_Nil_iff)
  have m2: "mset (concat ?s2) = mset (concat ?srcs)"
    unfolding s2 by (rule mset_concat_sorted)
  from d have d2: "distinct (concat ?s2)" using m2 mset_eq_imp_distinct_iff by blast
  from sorted_itr_merge[OF open_all_present[OF p2] ok d2, of "\<lambda>p t. True"] obtain m where
    "sorted_itr files2 ?fns (\<lambda>p t. True) col_time = (m, None)"
    "mset m = mset (concat ?s2)" "sorted (map col_time m)" by auto
  with flush s m2 show ?thesis
    by (auto simp: STMPIBuffer_spikes_def Let_def create_filter_def)
qed

text \<open>The theorem at Scenario B of the specification.\<close>

theorem merge_by_time_witness:
  "\<exists>m. merged_spikes [(1, ''A'', 0), (3, ''A'', 0)] [(2, ''A'', 1)] None by_time = (m, None)
       \<and> mset m = mset [(1, ''A'', 0), (3, ''A'', 0), (2, ''A'', 1)]
       \<and> sorted (map col_time m)"
proof -
  obtain self files where tw: "two_workers [(1, ''A'', 0), (3, ''A'', 0)] [(2, ''A'', 1)] = Inr (self, files)"
    and dir: "csv_cache_dir self = ''.''"
    and f0: "files (NodeCacheFile ''.'' 0) = Some [(1, ''A'', 0), (3, ''A'', 0)]"
    and f1: "files (NodeCacheFile ''.'' 1) = Some [(2, ''A'', 1)]"
    and op: "\<not> fh_closed (csv_buffer_handle self)"
    and pe: "fh_pending (csv_buffer_handle self) = []"
    and nm: "fh_name (csv_buffer_handle self) = NodeCacheFile ''.'' 0"
    by (simp add: two_workers_def worker_def STMPIBuffer_init_def STCSVBuffer_add_spike_def
        STCSVBuffer_flush_def file_flush_def file_write_def open_w_def file_contents_def
        py_or_def dict_get0_def Let_def col_time_def col_population_def col_node_def)
  define files1 where "files1 = files(NodeCacheFile ''.'' 0 \<mapsto> [(1, ''A'', 0), (3, ''A'', 0)])"
  have fl: "STCSVBuffer_flush self files
      = Inr (self\<lparr>csv_buffer_handle := (csv_buffer_handle self)\<lparr>fh_pending := []\<rparr>\<rparr>, files1)"
    using op pe nm f0
    by (simp add: STCSVBuffer_flush_def file_flush_def file_contents_def files1_def)
  have pr: "\<forall>r<2. \<exists>rows. files1 (NodeCacheFile (csv_cache_dir self) r) = Some rows \<and> rows \<noteq> []"
    using f1 by (auto simp: files1_def dir less_2_cases_iff)
  have srcs: "map (\<lambda>r. the (files1 (NodeCacheFile (csv_cache_dir self) r))) [0..<2]
      = [[(1, ''A'', 0), (3, ''A'', 0)], [(2, ''A'', 1)]]"
    using f1 by (simp add: files1_def dir upt_rec)
  have di: "distinct (concat (map (\<lambda>r. the (files1 (NodeCacheFile (csv_cache_dir self) r))) [0..<2]))"
    unfolding srcs by simp
  from merge_by_time[OF fl pr di, of None] obtain m where
    "snd (STMPIBuffer_spikes 2 self files None None None by_time) = (m, None)"
    "mset m = mset (concat (map (\<lambda>r. the (files1 (NodeCacheFile (csv_cache_dir self) r))) [0..<2]))"
    "sorted (map col_time m)" by blast
  with tw srcs show ?thesis by (auto simp: merged_spikes_def)
qed

end
